theory Spec2Isabelle
  imports Complex_Main "HOL-Library.AList" "HOL-Library.Stream" "HOL-Library.Multiset"
    "HOL-Library.Sublist"
begin

section \<open>Python values shared by the three scripts\<close>

text \<open>
  The repository holds three stand-alone scripts: the basic generator
  (\<^verbatim>\<open>generante_random_trips.py\<close>), the segmented generator with time slots and an
  origin=destination quota (\<^verbatim>\<open>generate_random_trips_segmented.py\<close>) and the aggregating
  generator (\<^verbatim>\<open>generate_random_trips_segmented_group.py\<close>). Functions that carry the same
  name in several scripts keep it here with the suffix \<open>_seg\<close> (segmented) or \<open>_grp\<close>
  (aggregating); the basic script keeps the plain name.
\<close>

datatype error = FileNotFound | ParseError | NoValidOrigin | IndexError | KeyError | ValueError

type_synonym node_id = string
type_synonym link_id = string

text \<open>
  A Python \<^verbatim>\<open>dict\<close> keeps insertion order; it is an association list read with
  \<^const>\<open>map_of\<close>. \<^verbatim>\<open>d[k].append(v)\<close> after \<^verbatim>\<open>if k not in d: d[k] = []\<close> is
  \<open>dict_append\<close>.
\<close>

type_synonym links_dict = "(node_id \<times> link_id list) list"

definition dict_append :: "links_dict \<Rightarrow> node_id \<Rightarrow> link_id \<Rightarrow> links_dict" where
  "dict_append d k v =
     (case map_of d k of
        None \<Rightarrow> d @ [(k, [v])]
      | Some vs \<Rightarrow> AList.update k (vs @ [v]) d)"

text \<open>\<^verbatim>\<open>node in outgoing_links and outgoing_links[node]\<close>: the key is present and its list
  is not empty.\<close>

definition is_valid_origin :: "links_dict \<Rightarrow> node_id \<Rightarrow> bool" where
  "is_valid_origin outgoing_links node =
     (case map_of outgoing_links node of None \<Rightarrow> False | Some ls \<Rightarrow> ls \<noteq> [])"

definition valid_origin_nodes :: "node_id list \<Rightarrow> links_dict \<Rightarrow> node_id list" where
  "valid_origin_nodes node_ids outgoing_links = filter (is_valid_origin outgoing_links) node_ids"

subsection \<open>Decimal rendering: \<^verbatim>\<open>str(n)\<close> of an integer\<close>

definition digit_char :: "nat \<Rightarrow> char" where
  "digit_char d = ''0123456789'' ! d"

function str_nat :: "nat \<Rightarrow> string" where
  "str_nat n = (if n < 10 then [digit_char n] else str_nat (n div 10) @ [digit_char (n mod 10)])"
  by pat_completeness auto
termination
  by (relation "measure id") auto

declare str_nat.simps [simp del]

definition str_int :: "int \<Rightarrow> string" where
  "str_int i = (if i < 0 then CHR ''-'' # str_nat (nat (- i)) else str_nat (nat i))"

text \<open>Reading a rendered integer back, as \<^verbatim>\<open>int(s)\<close> does; it is used to speak about the
  numeric value of a \<^verbatim>\<open>start\<close> attribute.\<close>

definition digit_val :: "char \<Rightarrow> nat" where
  "digit_val c = of_char c - 48"

definition nat_of_str :: "string \<Rightarrow> nat" where
  "nat_of_str s = foldl (\<lambda>a c. 10 * a + digit_val c) 0 s"

definition int_of_str :: "string \<Rightarrow> int" where
  "int_of_str s =
     (case s of
        [] \<Rightarrow> 0
      | c # r \<Rightarrow> if c = CHR ''-'' then - int (nat_of_str r) else int (nat_of_str s))"

section \<open>Loading the network: \<^verbatim>\<open>parse_network_iterative\<close>\<close>

text \<open>
  \<^verbatim>\<open>ET.iterparse(network_file, events=('start', 'end'))\<close> yields the document as a
  sequence of start and end events; an element carries its tag and its attributes.
  \<open>Malformed\<close> marks the point where the parser raises \<^verbatim>\<open>ET.ParseError\<close>.
\<close>

datatype xml_event =
    StartElem string "(string \<times> string) list"
  | EndElem string
  | Malformed

datatype network_file = NotAFile | XmlFile "xml_event list"

record parse_state =
  st_context :: "string option"
  st_node_ids :: "node_id list"
  st_outgoing_links :: links_dict

definition initial_state :: parse_state where
  "initial_state = \<lparr>st_context = None, st_node_ids = [], st_outgoing_links = []\<rparr>"

text \<open>\<^verbatim>\<open>elem.get(k)\<close> followed by a truth test: the attribute is present and not empty.\<close>

definition get_attr :: "(string \<times> string) list \<Rightarrow> string \<Rightarrow> string option" where
  "get_attr attrs k = (case map_of attrs k of None \<Rightarrow> None | Some v \<Rightarrow> if v = [] then None else Some v)"

fun handle_event :: "xml_event \<Rightarrow> parse_state \<Rightarrow> parse_state" where
  "handle_event (StartElem tag attrs) st =
     (if tag = ''nodes'' then st\<lparr>st_context := Some ''nodes''\<rparr>
      else if tag = ''links'' then st\<lparr>st_context := Some ''links''\<rparr>
      else if st_context st = Some ''nodes'' \<and> tag = ''node'' then
        (case get_attr attrs ''id'' of
           None \<Rightarrow> st
         | Some node_id \<Rightarrow> st\<lparr>st_node_ids := st_node_ids st @ [node_id]\<rparr>)
      else if st_context st = Some ''links'' \<and> tag = ''link'' then
        (case (get_attr attrs ''from'', get_attr attrs ''id'') of
           (Some from_node, Some link_id) \<Rightarrow>
             st\<lparr>st_outgoing_links := dict_append (st_outgoing_links st) from_node link_id\<rparr>
         | _ \<Rightarrow> st)
      else st)"
| "handle_event (EndElem tag) st =
     (if tag = ''nodes'' then st\<lparr>st_context := None\<rparr>
      else if tag = ''links'' then st\<lparr>st_context := None\<rparr>
      else st)"
| "handle_event Malformed st = st"

text \<open>The \<^verbatim>\<open>for event, elem in context_iter\<close> loop; a parse error leaves it through
  \<^verbatim>\<open>except ET.ParseError\<close>.\<close>

fun read_events :: "xml_event list \<Rightarrow> parse_state \<Rightarrow> error + parse_state" where
  "read_events [] st = Inr st"
| "read_events (Malformed # evs) st = Inl ParseError"
| "read_events (ev # evs) st = read_events evs (handle_event ev st)"

text \<open>The basic script: count the valid origins, fail when nodes and links exist but no
  node is a valid origin.\<close>

definition parse_network_iterative :: "network_file \<Rightarrow> error + (node_id list \<times> links_dict)" where
  "parse_network_iterative network_file =
     (case network_file of
        NotAFile \<Rightarrow> Inl FileNotFound
      | XmlFile evs \<Rightarrow>
          (case read_events evs initial_state of
             Inl e \<Rightarrow> Inl e
           | Inr st \<Rightarrow>
               (let valid_origin_nodes_count =
                      length (filter (is_valid_origin (st_outgoing_links st)) (st_node_ids st))
                in if valid_origin_nodes_count = 0 \<and> st_node_ids st \<noteq> [] \<and> st_outgoing_links st \<noteq> []
                   then Inl NoValidOrigin
                   else Inr (st_node_ids st, st_outgoing_links st))))"

text \<open>The segmented script computes the same set, prints the message and carries on: its
  comment leaves the failure to the generator.\<close>

definition parse_network_iterative_seg :: "network_file \<Rightarrow> error + (node_id list \<times> links_dict)" where
  "parse_network_iterative_seg network_file =
     (case network_file of
        NotAFile \<Rightarrow> Inl FileNotFound
      | XmlFile evs \<Rightarrow>
          (case read_events evs initial_state of
             Inl e \<Rightarrow> Inl e
           | Inr st \<Rightarrow> Inr (st_node_ids st, st_outgoing_links st)))"

text \<open>The aggregating script: as the basic one, the count written as a sum.\<close>

definition parse_network_iterative_grp :: "network_file \<Rightarrow> error + (node_id list \<times> links_dict)" where
  "parse_network_iterative_grp network_file =
     (case network_file of
        NotAFile \<Rightarrow> Inl FileNotFound
      | XmlFile evs \<Rightarrow>
          (case read_events evs initial_state of
             Inl e \<Rightarrow> Inl e
           | Inr st \<Rightarrow>
               (let valid_origin_nodes_count =
                      sum_list (map (\<lambda>node. if is_valid_origin (st_outgoing_links st) node then 1 else 0)
                                    (st_node_ids st)) :: nat
                in if valid_origin_nodes_count = 0 \<and> st_node_ids st \<noteq> [] \<and> st_outgoing_links st \<noteq> []
                   then Inl NoValidOrigin
                   else Inr (st_node_ids st, st_outgoing_links st))))"

section \<open>The random source\<close>

text \<open>
  Every script draws from Python's global \<^verbatim>\<open>random\<close> module. The source of randomness
  is a stream of naturals threaded through the generators: \<^verbatim>\<open>_randbelow(n)\<close> consumes one
  element and reduces it modulo \<open>n\<close>, so every sequence of outcomes is the image of some
  stream. \<^verbatim>\<open>random.choice\<close> raises \<^verbatim>\<open>IndexError\<close> on an empty sequence,
  \<^verbatim>\<open>random.randint(a, b)\<close> raises \<^verbatim>\<open>ValueError\<close> when \<open>b < a\<close>, and
  \<^verbatim>\<open>random.shuffle\<close> is the library's Fisher-Yates loop
  \<^verbatim>\<open>for i in reversed(range(1, len(x))): j = randbelow(i + 1); x[i], x[j] = x[j], x[i]\<close>.
\<close>

type_synonym rng = "nat stream"

definition choice :: "'a list \<Rightarrow> rng \<Rightarrow> error + ('a \<times> rng)" where
  "choice seq g = (if seq = [] then Inl IndexError else Inr (seq ! (shd g mod length seq), stl g))"

definition randint :: "int \<Rightarrow> int \<Rightarrow> rng \<Rightarrow> error + (int \<times> rng)" where
  "randint a b g =
     (if b < a then Inl ValueError else Inr (a + int (shd g mod nat (b - a + 1)), stl g))"

fun shuffle_loop :: "nat \<Rightarrow> 'a list \<Rightarrow> rng \<Rightarrow> 'a list \<times> rng" where
  "shuffle_loop 0 x g = (x, g)"
| "shuffle_loop (Suc k) x g =
     (let i = Suc k; j = shd g mod (i + 1)
      in shuffle_loop k (x[i := x ! j, j := x ! i]) (stl g))"

definition shuffle :: "'a list \<Rightarrow> rng \<Rightarrow> 'a list \<times> rng" where
  "shuffle x g = shuffle_loop (length x - 1) x g"

text \<open>What a run of a generator comes to: it returns a value, an exception leaves it, or
  it never returns.\<close>

datatype 'a run = Returns 'a | Raises error | NeverReturns

section \<open>The basic generator: \<^verbatim>\<open>generate_and_write_trips_iterative\<close>\<close>

text \<open>The attribute dictionary \<^verbatim>\<open>trip_attrs\<close> written for one trip; every value is the
  string the script puts there.\<close>

record trip =
  name :: string
  origin :: node_id
  destination :: node_id
  link_origin :: link_id
  trip_count :: string
  start :: string
  mode :: string
  digital_rails_capable :: string

text \<open>
  The rejection loop
  \<^verbatim>\<open>while len(node_ids) > 1 and destination_node == origin_node: destination_node = random.choice(node_ids)\<close>
  has no bound: the value \<open>None\<close> stands for a loop that never ends.
\<close>

partial_function (option) redraw_destination ::
  "node_id list \<Rightarrow> node_id \<Rightarrow> node_id \<Rightarrow> rng \<Rightarrow> (error + (node_id \<times> rng)) option" where
  "redraw_destination node_ids origin_node destination_node g =
     (if length node_ids > 1 \<and> destination_node = origin_node
      then (case choice node_ids g of
              Inl e \<Rightarrow> Some (Inl e)
            | Inr (d, g') \<Rightarrow> redraw_destination node_ids origin_node d g')
      else Some (Inr (destination_node, g)))"

text \<open>One pass of the loop body up to the start time: origin, link of the origin,
  destination, start time, drawn in this order. The aggregating script draws the same
  values in the same order.\<close>

record sample =
  s_origin :: node_id
  s_link_origin :: link_id
  s_destination :: node_id
  s_start_time :: int

definition sample_trip ::
  "node_id list \<Rightarrow> links_dict \<Rightarrow> node_id list \<Rightarrow> int \<Rightarrow> rng \<Rightarrow> (error + (sample \<times> rng)) option" where
  "sample_trip node_ids outgoing_links valid_origins max_start_time g =
     (case choice valid_origins g of
        Inl e \<Rightarrow> Some (Inl e)
      | Inr (origin_node, g1) \<Rightarrow>
     (case map_of outgoing_links origin_node of
        None \<Rightarrow> Some (Inl KeyError)
      | Some possible_link_origins \<Rightarrow>
     (case choice possible_link_origins g1 of
        Inl e \<Rightarrow> Some (Inl e)
      | Inr (link, g2) \<Rightarrow>
     (case choice node_ids g2 of
        Inl e \<Rightarrow> Some (Inl e)
      | Inr (d0, g3) \<Rightarrow>
     (case redraw_destination node_ids origin_node d0 g3 of
        None \<Rightarrow> None
      | Some (Inl e) \<Rightarrow> Some (Inl e)
      | Some (Inr (destination_node, g4)) \<Rightarrow>
     (case randint 0 max_start_time g4 of
        Inl e \<Rightarrow> Some (Inl e)
      | Inr (start_time, g5) \<Rightarrow>
          Some (Inr (\<lparr>s_origin = origin_node, s_link_origin = link,
                      s_destination = destination_node, s_start_time = start_time\<rparr>, g5))))))))"

definition make_trip :: "int \<Rightarrow> node_id \<Rightarrow> node_id \<Rightarrow> link_id \<Rightarrow> int \<Rightarrow> trip" where
  "make_trip i origin_node destination_node link start_time =
     \<lparr>name = ''trip_'' @ str_int i, origin = origin_node, destination = destination_node,
      link_origin = link, trip_count = ''1'', start = str_int start_time,
      mode = ''car'', digital_rails_capable = ''false''\<rparr>"

text \<open>
  The \<^verbatim>\<open>for i in range(1, num_trips + 1)\<close> loop inside \<^verbatim>\<open>try\<close>. The result is the
  list of records written to the file so far and how the call ends: an exception inside
  the loop is caught and the function returns \<^verbatim>\<open>False\<close>. Failures of the file system
  are not modelled.
\<close>

fun write_trips ::
  "int list \<Rightarrow> node_id list \<Rightarrow> links_dict \<Rightarrow> node_id list \<Rightarrow> int \<Rightarrow> rng \<Rightarrow> trip list \<times> bool run" where
  "write_trips [] node_ids outgoing_links valid_origins max_start_time g = ([], Returns True)"
| "write_trips (i # rest) node_ids outgoing_links valid_origins max_start_time g =
     (case sample_trip node_ids outgoing_links valid_origins max_start_time g of
        None \<Rightarrow> ([], NeverReturns)
      | Some (Inl e) \<Rightarrow> ([], Returns False)
      | Some (Inr (s, g')) \<Rightarrow>
          (let (written, r) = write_trips rest node_ids outgoing_links valid_origins max_start_time g'
           in (make_trip i (s_origin s) (s_destination s) (s_link_origin s) (s_start_time s) # written, r)))"

definition generate_and_write_trips_iterative ::
  "node_id list \<Rightarrow> links_dict \<Rightarrow> int \<Rightarrow> int \<Rightarrow> rng \<Rightarrow> trip list \<times> bool run" where
  "generate_and_write_trips_iterative node_ids outgoing_links num_trips max_start_time g =
     (if node_ids = [] then ([], Returns False)
      else if valid_origin_nodes node_ids outgoing_links = [] then ([], Returns False)
      else write_trips [1..num_trips] node_ids outgoing_links
             (valid_origin_nodes node_ids outgoing_links) max_start_time g)"

section \<open>The segmented generator\<close>

text \<open>
  A time slot as \<^verbatim>\<open>parse_time_slots_json\<close> hands it over: a dictionary with the keys
  \<^verbatim>\<open>name\<close>, \<^verbatim>\<open>start_sec\<close>, \<^verbatim>\<open>end_sec\<close> and \<^verbatim>\<open>percentage\<close>. Python's floats are
  taken as exact rationals: \<^verbatim>\<open>round\<close> rounds half to even, \<^verbatim>\<open>int\<close> truncates towards
  zero.
\<close>

record time_slot =
  slot_name :: string
  start_sec :: int
  end_sec :: int
  percentage :: rat

definition py_round :: "rat \<Rightarrow> int" where
  "py_round x =
     (let f = \<lfloor>x\<rfloor>; d = x - of_int f
      in if d < 1 / 2 then f else if 1 / 2 < d then f + 1 else if even f then f else f + 1)"

definition py_int :: "rat \<Rightarrow> int" where
  "py_int x = (if 0 \<le> x then \<lfloor>x\<rfloor> else \<lceil>x\<rceil>)"

text \<open>
  \<^verbatim>\<open>parse_time_slots_json\<close>, from the decoded JSON list on. An entry of the list is taken
  with its three numbers already read by \<^verbatim>\<open>float(...)\<close> and with the name it gets (the
  \<^verbatim>\<open>name\<close> key, or the default text); a list that is not decodable this way is outside
  the model. \<open>None\<close> is the \<^verbatim>\<open>return None\<close> of the script. The loop keeps the slots that
  start no later than the maximum time; \<^verbatim>\<open>continue\<close> leaves \<^verbatim>\<open>last_end_sec\<close> as it is.
\<close>

record slot_input =
  in_name :: string
  start_hour :: rat
  end_hour :: rat
  in_percentage :: rat

fun process_slots ::
  "slot_input list \<Rightarrow> int \<Rightarrow> int \<Rightarrow> time_slot list \<Rightarrow> rat \<Rightarrow> (time_slot list \<times> rat) option" where
  "process_slots [] max_total_time_simulation last_end_sec processed_slots total_percentage =
     Some (processed_slots, total_percentage)"
| "process_slots (slot_def # rest) max_total_time_simulation last_end_sec processed_slots
       total_percentage =
     (if start_hour slot_def < 0 \<or> end_hour slot_def \<le> start_hour slot_def
         \<or> in_percentage slot_def \<le> 0 \<or> 1 < in_percentage slot_def
      then None
      else
        (let start_s = py_int (start_hour slot_def * 3600);
             end_s = py_int (end_hour slot_def * 3600) - 1
         in if start_s \<le> last_end_sec then None
            else if max_total_time_simulation < start_s
            then process_slots rest max_total_time_simulation last_end_sec processed_slots
                   total_percentage
            else process_slots rest max_total_time_simulation end_s
                   (processed_slots @
                      [\<lparr>slot_name = in_name slot_def, start_sec = start_s, end_sec = end_s,
                        percentage = in_percentage slot_def\<rparr>])
                   (total_percentage + in_percentage slot_def)))"

definition parse_time_slots_json :: "slot_input list \<Rightarrow> int \<Rightarrow> time_slot list option" where
  "parse_time_slots_json slots_input max_total_time_simulation =
     (case process_slots (sort_key start_hour slots_input) max_total_time_simulation (- 1) [] 0 of
        None \<Rightarrow> None
      | Some (processed_slots, total_percentage) \<Rightarrow>
          (if \<not> (999 / 1000 \<le> total_percentage \<and> total_percentage \<le> 1001 / 1000)
           then (if 0 < total_percentage
                 then (let normalised =
                             map (\<lambda>slot. slot\<lparr>percentage := percentage slot / total_percentage\<rparr>)
                                 processed_slots
                       in if normalised = [] then None else Some normalised)
                 else None)
           else if processed_slots = [] then None else Some processed_slots))"

text \<open>\<^verbatim>\<open>xs[:n]\<close>: a negative bound counts from the end.\<close>

definition py_slice_to :: "'a list \<Rightarrow> int \<Rightarrow> 'a list" where
  "py_slice_to xs n = (if 0 \<le> n then take (nat n) xs else take (length xs - nat (- n)) xs)"

text \<open>\<^verbatim>\<open>for _ in range(num_in_this_slot): all_trip_start_times.append(random.randint(a, b))\<close>\<close>

fun draw_start_times :: "nat \<Rightarrow> int \<Rightarrow> int \<Rightarrow> rng \<Rightarrow> error + (int list \<times> rng)" where
  "draw_start_times 0 a b g = Inr ([], g)"
| "draw_start_times (Suc n) a b g =
     (case randint a b g of
        Inl e \<Rightarrow> Inl e
      | Inr (t, g') \<Rightarrow>
          (case draw_start_times n a b g' of
             Inl e \<Rightarrow> Inl e
           | Inr (ts, g'') \<Rightarrow> Inr (t # ts, g'')))"

text \<open>
  The loop \<^verbatim>\<open>for i, slot in enumerate(time_slot_definitions)\<close>. The branch for a slot
  that cannot be used (\<^verbatim>\<open>slot_actual_start_s > max_start_time_simulation or
  slot_actual_start_s > slot_actual_end_s\<close>) prints and sets \<^verbatim>\<open>num_in_this_slot = 0\<close>,
  but the quota is assigned again, unconditionally, right after the \<^verbatim>\<open>if\<close>/\<^verbatim>\<open>else\<close>:
  the value \<open>0\<close> never reaches the draw. The last slot (\<^verbatim>\<open>i == len(...) - 1\<close>) is the
  one with no slot after it.
\<close>

fun allocate_slots ::
  "time_slot list \<Rightarrow> int \<Rightarrow> int \<Rightarrow> int list \<Rightarrow> int \<Rightarrow> rng \<Rightarrow> error + (int list \<times> int \<times> rng)" where
  "allocate_slots [] num_trips max_time start_times trips_allocated_count g =
     Inr (start_times, trips_allocated_count, g)"
| "allocate_slots (slot # rest) num_trips max_time start_times trips_allocated_count g =
     (let slot_actual_start_s = start_sec slot;
          slot_actual_end_s = min (end_sec slot) max_time;
          num_in_this_slot =
            (if rest = [] then num_trips - trips_allocated_count
             else py_round (of_int num_trips * percentage slot))
      in case draw_start_times (nat num_in_this_slot) slot_actual_start_s slot_actual_end_s g of
           Inl e \<Rightarrow> Inl e
         | Inr (ts, g') \<Rightarrow>
             allocate_slots rest num_trips max_time (start_times @ ts)
               (trips_allocated_count + num_in_this_slot) g')"

definition is_usable :: "int \<Rightarrow> time_slot \<Rightarrow> bool" where
  "is_usable max_time slot_def =
     (start_sec slot_def \<le> min (end_sec slot_def) max_time \<and> start_sec slot_def \<le> max_time)"

definition target_slot_for_remainder :: "time_slot list \<Rightarrow> int \<Rightarrow> (int \<times> int) option" where
  "target_slot_for_remainder slots max_time =
     (case List.find (is_usable max_time) (rev slots) of
        None \<Rightarrow> None
      | Some slot_def \<Rightarrow> Some (start_sec slot_def, min (end_sec slot_def) max_time))"

text \<open>\<^verbatim>\<open>while len(all_trip_start_times) < num_trips\<close>: every pass appends one value.\<close>

function fill_remainder ::
  "time_slot list \<Rightarrow> int \<Rightarrow> int \<Rightarrow> int list \<Rightarrow> rng \<Rightarrow> error + (int list \<times> rng)" where
  "fill_remainder slots num_trips max_time start_times g =
     (if int (length start_times) < num_trips then
        (case target_slot_for_remainder slots max_time of
           Some (s_start, s_end) \<Rightarrow>
             (case randint s_start s_end g of
                Inl e \<Rightarrow> Inl e
              | Inr (t, g') \<Rightarrow> fill_remainder slots num_trips max_time (start_times @ [t]) g')
         | None \<Rightarrow>
             (case randint 0 max_time g of
                Inl e \<Rightarrow> Inl e
              | Inr (t, g') \<Rightarrow>
                  if num_trips \<le> int (length (start_times @ [t])) then Inr (start_times @ [t], g')
                  else fill_remainder slots num_trips max_time (start_times @ [t]) g'))
      else Inr (start_times, g))"
  by pat_completeness auto
termination
  by (relation "measure (\<lambda>(slots, num_trips, max_time, start_times, g). nat (num_trips - int (length start_times)))")
     auto

declare fill_remainder.simps [simp del]

text \<open>Step 1 of the script: the list \<^verbatim>\<open>all_trip_start_times\<close> after
  \<^verbatim>\<open>all_trip_start_times[:num_trips]\<close>. It is built before the \<^verbatim>\<open>try\<close>.\<close>

definition all_trip_start_times ::
  "time_slot list \<Rightarrow> int \<Rightarrow> int \<Rightarrow> rng \<Rightarrow> error + (int list \<times> rng)" where
  "all_trip_start_times slots num_trips max_time g =
     (case allocate_slots slots num_trips max_time [] 0 g of
        Inl e \<Rightarrow> Inl e
      | Inr (start_times, allocated, g1) \<Rightarrow>
          (case fill_remainder slots num_trips max_time start_times g1 of
             Inl e \<Rightarrow> Inl e
           | Inr (start_times', g2) \<Rightarrow> Inr (py_slice_to start_times' num_trips, g2)))"

text \<open>Step 2: \<^verbatim>\<open>target_od_equal_trips\<close> and the shuffled flags.\<close>

definition target_od_equal_trips :: "int \<Rightarrow> rat \<Rightarrow> int" where
  "target_od_equal_trips num_trips actual_percentage_od_equal =
     py_int (of_int num_trips * actual_percentage_od_equal)"

definition trip_is_od_equal_flags :: "int \<Rightarrow> rat \<Rightarrow> rng \<Rightarrow> bool list \<times> rng" where
  "trip_is_od_equal_flags num_trips actual_percentage_od_equal g =
     (let target = target_od_equal_trips num_trips actual_percentage_od_equal
      in shuffle (replicate (nat target) True @ replicate (nat (num_trips - target)) False) g)"

text \<open>\<^verbatim>\<open>while destination_node == origin_node and attempts < max_attempts\<close>\<close>

function retry_destination ::
  "node_id list \<Rightarrow> node_id \<Rightarrow> node_id \<Rightarrow> nat \<Rightarrow> nat \<Rightarrow> rng \<Rightarrow> error + (node_id \<times> rng)" where
  "retry_destination node_ids origin_node destination_node attempts max_attempts g =
     (if destination_node = origin_node \<and> attempts < max_attempts
      then (case choice node_ids g of
              Inl e \<Rightarrow> Inl e
            | Inr (d, g') \<Rightarrow> retry_destination node_ids origin_node d (attempts + 1) max_attempts g')
      else Inr (destination_node, g))"
  by pat_completeness auto
termination
  by (relation "measure (\<lambda>(node_ids, origin_node, destination_node, attempts, max_attempts, g).
                           max_attempts - attempts)") auto

declare retry_destination.simps [simp del]

definition choose_destination ::
  "node_id list \<Rightarrow> node_id \<Rightarrow> bool \<Rightarrow> bool \<Rightarrow> rng \<Rightarrow> error + (node_id \<times> rng)" where
  "choose_destination node_ids origin_node is_this_trip_od_equal is_single_node_network g =
     (if is_this_trip_od_equal \<or> is_single_node_network then Inr (origin_node, g)
      else
        (case choice node_ids g of
           Inl e \<Rightarrow> Inl e
         | Inr (d0, g1) \<Rightarrow>
        (case retry_destination node_ids origin_node d0 0 (length node_ids + 5) g1 of
           Inl e \<Rightarrow> Inl e
         | Inr (d, g2) \<Rightarrow>
             if d = origin_node then
               (let other_nodes = filter (\<lambda>n. n \<noteq> origin_node) node_ids
                in if other_nodes \<noteq> [] then choice other_nodes g2 else Inr (d, g2))
             else Inr (d, g2))))"

text \<open>The body of \<^verbatim>\<open>for i in range(num_trips)\<close> up to the destination.\<close>

definition sample_trip_seg ::
  "node_id list \<Rightarrow> links_dict \<Rightarrow> node_id list \<Rightarrow> bool \<Rightarrow> bool \<Rightarrow> rng
     \<Rightarrow> error + ((node_id \<times> link_id \<times> node_id) \<times> rng)" where
  "sample_trip_seg node_ids outgoing_links valid_origins is_this_trip_od_equal
       is_single_node_network g =
     (case choice valid_origins g of
        Inl e \<Rightarrow> Inl e
      | Inr (origin_node, g1) \<Rightarrow>
     (case map_of outgoing_links origin_node of
        None \<Rightarrow> Inl KeyError
      | Some possible_link_origins \<Rightarrow>
     (case choice possible_link_origins g1 of
        Inl e \<Rightarrow> Inl e
      | Inr (link, g2) \<Rightarrow>
     (case choose_destination node_ids origin_node is_this_trip_od_equal
             is_single_node_network g2 of
        Inl e \<Rightarrow> Inl e
      | Inr (destination_node, g3) \<Rightarrow> Inr ((origin_node, link, destination_node), g3)))))"

text \<open>The writing loop, inside \<^verbatim>\<open>try\<close>: reading \<^verbatim>\<open>all_trip_start_times[i]\<close> or
  \<^verbatim>\<open>trip_is_od_equal_flags[i]\<close> out of range raises, and the function returns
  \<^verbatim>\<open>False\<close>.\<close>

fun write_trips_seg ::
  "nat list \<Rightarrow> node_id list \<Rightarrow> links_dict \<Rightarrow> node_id list \<Rightarrow> bool \<Rightarrow> int list \<Rightarrow> bool list \<Rightarrow> rng
     \<Rightarrow> trip list \<times> bool run" where
  "write_trips_seg [] node_ids outgoing_links valid_origins single start_times flags g =
     ([], Returns True)"
| "write_trips_seg (i # rest) node_ids outgoing_links valid_origins single start_times flags g =
     (if length start_times \<le> i \<or> length flags \<le> i then ([], Returns False)
      else
        (case sample_trip_seg node_ids outgoing_links valid_origins (flags ! i) single g of
           Inl e \<Rightarrow> ([], Returns False)
         | Inr ((origin_node, link, destination_node), g') \<Rightarrow>
             (let (written, r) =
                    write_trips_seg rest node_ids outgoing_links valid_origins single start_times flags g'
              in (make_trip (int i + 1) origin_node destination_node link (start_times ! i) # written, r))))"

definition generate_and_write_trips_iterative_seg ::
  "node_id list \<Rightarrow> links_dict \<Rightarrow> int \<Rightarrow> int \<Rightarrow> time_slot list \<Rightarrow> rat \<Rightarrow> rng \<Rightarrow> trip list \<times> bool run" where
  "generate_and_write_trips_iterative_seg node_ids outgoing_links num_trips max_time
       time_slot_definitions percentage_od_equal g =
     (if node_ids = [] then ([], Returns False)
      else if valid_origin_nodes node_ids outgoing_links = [] then ([], Returns False)
      else
        (let is_single_node_network = (length node_ids = 1);
             actual_percentage_od_equal = (if is_single_node_network then 1 else percentage_od_equal)
         in case all_trip_start_times time_slot_definitions num_trips max_time g of
              Inl e \<Rightarrow> ([], Raises e)
            | Inr (start_times, g1) \<Rightarrow>
                (let (flags, g2) = trip_is_od_equal_flags num_trips actual_percentage_od_equal g1
                 in write_trips_seg [0..<nat num_trips] node_ids outgoing_links
                      (valid_origin_nodes node_ids outgoing_links) is_single_node_network
                      start_times flags g2)))"

section \<open>The aggregating generator: \<^verbatim>\<open>generate_aggregated_and_sorted_trips\<close>\<close>

text \<open>\<^verbatim>\<open>aggregated_trips_map\<close>: the key is \<open>(origin, destination, start_time)\<close>, the value
  the count and the link of the first trip seen with the key.\<close>

type_synonym trip_key = "node_id \<times> node_id \<times> int"
type_synonym trips_map = "(trip_key \<times> (int \<times> link_id)) list"

definition trip_key :: "sample \<Rightarrow> trip_key" where
  "trip_key s = (s_origin s, s_destination s, s_start_time s)"

definition aggregate_trip :: "trips_map \<Rightarrow> sample \<Rightarrow> trips_map" where
  "aggregate_trip m s =
     (let m1 = (case map_of m (trip_key s) of
                  None \<Rightarrow> m @ [(trip_key s, (0, s_link_origin s))]
                | Some v \<Rightarrow> m)
      in case map_of m1 (trip_key s) of
           None \<Rightarrow> m1
         | Some (c, l) \<Rightarrow> AList.update (trip_key s) (c + 1, l) m1)"

text \<open>\<^verbatim>\<open>for _ in range(num_trips_to_generate)\<close>: nothing catches an exception here.\<close>

fun aggregate_loop ::
  "nat \<Rightarrow> node_id list \<Rightarrow> links_dict \<Rightarrow> node_id list \<Rightarrow> int \<Rightarrow> trips_map \<Rightarrow> rng \<Rightarrow> trips_map run" where
  "aggregate_loop 0 node_ids outgoing_links valid_origins max_start_time m g = Returns m"
| "aggregate_loop (Suc n) node_ids outgoing_links valid_origins max_start_time m g =
     (case sample_trip node_ids outgoing_links valid_origins max_start_time g of
        None \<Rightarrow> NeverReturns
      | Some (Inl e) \<Rightarrow> Raises e
      | Some (Inr (s, g')) \<Rightarrow>
          aggregate_loop n node_ids outgoing_links valid_origins max_start_time
            (aggregate_trip m s) g')"

record processed_trip =
  p_origin :: node_id
  p_destination :: node_id
  p_start :: int
  p_count :: int
  p_link_origin :: link_id
  p_mode :: string
  p_digital_rails_capable :: string

record final_trip =
  f_origin :: node_id
  f_destination :: node_id
  f_start :: string
  f_count :: int
  f_link_origin :: link_id
  f_mode :: string
  f_digital_rails_capable :: string
  f_name :: string

definition processed_trips_list :: "trips_map \<Rightarrow> processed_trip list" where
  "processed_trips_list m =
     map (\<lambda>((origin_node, destination_node, start_time), (c, l)).
            \<lparr>p_origin = origin_node, p_destination = destination_node, p_start = start_time,
             p_count = c, p_link_origin = l, p_mode = ''car'',
             p_digital_rails_capable = ''false''\<rparr>) m"

text \<open>\<^verbatim>\<open>processed_trips_list.sort(key=lambda x: x['start'])\<close> is a stable sort.\<close>

definition sorted_trips_list :: "trips_map \<Rightarrow> processed_trip list" where
  "sorted_trips_list m = sort_key p_start (processed_trips_list m)"

definition final_trips_for_xml :: "processed_trip list \<Rightarrow> final_trip list" where
  "final_trips_for_xml trips =
     map (\<lambda>(i, trip_data).
            \<lparr>f_origin = p_origin trip_data, f_destination = p_destination trip_data,
             f_start = str_int (p_start trip_data), f_count = p_count trip_data,
             f_link_origin = p_link_origin trip_data, f_mode = p_mode trip_data,
             f_digital_rails_capable = p_digital_rails_capable trip_data,
             f_name = ''trip_'' @ str_int (int i + 1)\<rparr>)
         (enumerate 0 trips)"

definition generate_aggregated_and_sorted_trips ::
  "node_id list \<Rightarrow> links_dict \<Rightarrow> int \<Rightarrow> int \<Rightarrow> rng \<Rightarrow> final_trip list run" where
  "generate_aggregated_and_sorted_trips node_ids outgoing_links num_trips_to_generate
       max_start_time g =
     (if node_ids = [] then Returns []
      else if valid_origin_nodes node_ids outgoing_links = [] then Returns []
      else
        (case aggregate_loop (nat num_trips_to_generate) node_ids outgoing_links
                (valid_origin_nodes node_ids outgoing_links) max_start_time [] g of
           Returns m \<Rightarrow> Returns (final_trips_for_xml (sorted_trips_list m))
         | Raises e \<Rightarrow> Raises e
         | NeverReturns \<Rightarrow> NeverReturns))"

section \<open>Notions used to state the properties\<close>

text \<open>The identifiers of the \<^verbatim>\<open>node\<close> start elements of a document, in document order,
  wherever the element stands.\<close>

fun node_element_ids :: "xml_event list \<Rightarrow> node_id list" where
  "node_element_ids [] = []"
| "node_element_ids (StartElem tag attrs # evs) =
     (if tag = ''node'' then (case get_attr attrs ''id'' of None \<Rightarrow> [] | Some i \<Rightarrow> [i]) else [])
       @ node_element_ids evs"
| "node_element_ids (ev # evs) = node_element_ids evs"

text \<open>
  The identifiers the document gives to its nodes: the non-empty \<^verbatim>\<open>id\<close> attributes of the
  \<^verbatim>\<open>node\<close> start elements met while \<^verbatim>\<open>nodes\<close> is the section last opened and not yet
  closed, in document order, each as often as it occurs. \<open>sec\<close> is the section open before
  the first event.
\<close>

fun ids_within_nodes :: "string option \<Rightarrow> xml_event list \<Rightarrow> node_id list" where
  "ids_within_nodes sec [] = []"
| "ids_within_nodes sec (StartElem tag attrs # evs) =
     (if tag = ''nodes'' \<or> tag = ''links'' then ids_within_nodes (Some tag) evs
      else (if sec = Some ''nodes'' \<and> tag = ''node''
            then (case get_attr attrs ''id'' of None \<Rightarrow> [] | Some i \<Rightarrow> [i]) else [])
           @ ids_within_nodes sec evs)"
| "ids_within_nodes sec (EndElem tag # evs) =
     ids_within_nodes (if tag = ''nodes'' \<or> tag = ''links'' then None else sec) evs"
| "ids_within_nodes sec (Malformed # evs) = ids_within_nodes sec evs"

text \<open>\<open>link\<close> is one of \<^verbatim>\<open>outgoing_links[origin_node]\<close>.\<close>

definition link_of_origin :: "links_dict \<Rightarrow> node_id \<Rightarrow> link_id \<Rightarrow> bool" where
  "link_of_origin outgoing_links origin_node link =
     (case map_of outgoing_links origin_node of None \<Rightarrow> False | Some ls \<Rightarrow> link \<in> set ls)"

text \<open>A written record whose origin is one of the valid origins and whose link leaves it.\<close>

definition trip_ok :: "node_id list \<Rightarrow> links_dict \<Rightarrow> trip \<Rightarrow> bool" where
  "trip_ok valid_origins outgoing_links t =
     (origin t \<in> set valid_origins \<and> link_of_origin outgoing_links (origin t) (link_origin t))"

text \<open>
  A random source is fair for \<open>n\<close> outcomes when every outcome below \<open>n\<close> comes again
  after every position: the least that a rejection loop needs from its source.
\<close>

definition fair :: "nat \<Rightarrow> rng \<Rightarrow> bool" where
  "fair n g = (\<forall>k. \<forall>i<n. \<exists>m\<ge>k. g !! m mod n = i)"


text \<open>The range the refilling loop draws from: the target slot, or the whole horizon.\<close>

definition refill_range :: "time_slot list \<Rightarrow> int \<Rightarrow> int \<times> int" where
  "refill_range slots max_time =
     (case target_slot_for_remainder slots max_time of Some p \<Rightarrow> p | None \<Rightarrow> (0, max_time))"

text \<open>
  The raw trips of the aggregating generator: the values \<^verbatim>\<open>(origin_node, destination_node,
  start_time, link_origin)\<close> of the successive passes of its loop, before they are put in
  the map.
\<close>

fun raw_trips ::
  "nat \<Rightarrow> node_id list \<Rightarrow> links_dict \<Rightarrow> node_id list \<Rightarrow> int \<Rightarrow> rng \<Rightarrow> sample list run" where
  "raw_trips 0 node_ids outgoing_links valid_origins max_start_time g = Returns []"
| "raw_trips (Suc n) node_ids outgoing_links valid_origins max_start_time g =
     (case sample_trip node_ids outgoing_links valid_origins max_start_time g of
        None \<Rightarrow> NeverReturns
      | Some (Inl e) \<Rightarrow> Raises e
      | Some (Inr (s, g')) \<Rightarrow>
          (case raw_trips n node_ids outgoing_links valid_origins max_start_time g' of
             Returns ss \<Rightarrow> Returns (s # ss)
           | Raises e \<Rightarrow> Raises e
           | NeverReturns \<Rightarrow> NeverReturns))"

text \<open>The grouping key as it reads in an output record and in a raw trip.\<close>

definition final_key :: "final_trip \<Rightarrow> node_id \<times> node_id \<times> string" where
  "final_key t = (f_origin t, f_destination t, f_start t)"

definition rendered_key :: "sample \<Rightarrow> node_id \<times> node_id \<times> string" where
  "rendered_key s = (s_origin s, s_destination s, str_int (s_start_time s))"

definition render_key :: "trip_key \<Rightarrow> node_id \<times> node_id \<times> string" where
  "render_key k = (case k of (a, b, s) \<Rightarrow> (a, b, str_int s))"

definition processed_key :: "processed_trip \<Rightarrow> trip_key" where
  "processed_key p = (p_origin p, p_destination p, p_start p)"

definition map_count :: "trips_map \<Rightarrow> trip_key \<Rightarrow> int" where
  "map_count m k = (case map_of m k of None \<Rightarrow> 0 | Some (c, l) \<Rightarrow> c)"

definition map_total :: "trips_map \<Rightarrow> int" where
  "map_total m = sum_list (map (\<lambda>(k, (c, l)). c) m)"

lemma lt10: "(d::nat) < 10 \<Longrightarrow> d = 0 \<or> d = 1 \<or> d = 2 \<or> d = 3 \<or> d = 4 \<or> d = 5 \<or> d = 6 \<or> d = 7 \<or> d = 8 \<or> d = 9"
  by arith

lemma digit_val_digit_char: "d < 10 \<Longrightarrow> digit_val (digit_char d) = d"
  using lt10[of d] by (auto simp: digit_val_def digit_char_def)

lemma digit_char_not_minus: "d < 10 \<Longrightarrow> digit_char d \<noteq> CHR ''-''"
  using lt10[of d] by (auto simp: digit_char_def)

lemma nat_of_str_str_nat: "nat_of_str (str_nat n) = n"
proof (induction n rule: str_nat.induct)
  case (1 n)
  show ?case
  proof (cases "n < 10")
    case True
    then show ?thesis by (subst str_nat.simps) (simp add: nat_of_str_def digit_val_digit_char)
  next
    case False
    then have "nat_of_str (str_nat (n div 10)) = n div 10" using 1 by simp
    then show ?thesis using False
      by (subst str_nat.simps) (simp add: nat_of_str_def digit_val_digit_char)
  qed
qed

lemma str_nat_head: "\<exists>d r. d < 10 \<and> str_nat n = digit_char d # r"
proof (induction n rule: str_nat.induct)
  case (1 n)
  show ?case
  proof (cases "n < 10")
    case True
    then show ?thesis by (subst str_nat.simps) auto
  next
    case False
    then obtain d r where "d < 10" "str_nat (n div 10) = digit_char d # r" using 1 by blast
    then show ?thesis using False by (subst str_nat.simps) auto
  qed
qed

lemma int_of_str_str_int: "int_of_str (str_int i) = i"
proof (cases "i < 0")
  case True
  then show ?thesis by (simp add: int_of_str_def str_int_def nat_of_str_str_nat)
next
  case False
  obtain d r where d: "d < 10" "str_nat (nat i) = digit_char d # r" using str_nat_head by blast
  have "nat_of_str (digit_char d # r) = nat i" using nat_of_str_str_nat[of "nat i"] d by simp
  then show ?thesis using False d digit_char_not_minus[OF d(1)]
    by (simp add: int_of_str_def str_int_def)
qed

lemma str_int_inj: "str_int a = str_int b \<Longrightarrow> a = b"
  by (metis int_of_str_str_int)

lemma handle_event_node_ids:
  "\<exists>ys. st_node_ids (handle_event ev st) = st_node_ids st @ ys \<and> subseq ys (node_element_ids [ev])"
  by (cases ev) (auto split: option.splits)

lemma node_element_ids_Cons:
  "node_element_ids (ev # evs) = node_element_ids [ev] @ node_element_ids evs"
  by (cases ev) auto

lemma read_events_node_ids:
  "read_events evs st = Inr st' \<Longrightarrow>
   \<exists>ys. st_node_ids st' = st_node_ids st @ ys \<and> subseq ys (node_element_ids evs)"
proof (induction evs arbitrary: st)
  case Nil
  then show ?case by simp
next
  case (Cons ev evs)
  have nm: "ev \<noteq> Malformed" using Cons.prems by (cases ev) auto
  then have "read_events (ev # evs) st = read_events evs (handle_event ev st)"
    by (cases ev) auto
  then have r: "read_events evs (handle_event ev st) = Inr st'" using Cons.prems by simp
  from Cons.IH[OF r] obtain ys where
    ys: "st_node_ids st' = st_node_ids (handle_event ev st) @ ys"
      "subseq ys (node_element_ids evs)" by blast
  obtain zs where zs: "st_node_ids (handle_event ev st) = st_node_ids st @ zs"
    "subseq zs (node_element_ids [ev])" using handle_event_node_ids by blast
  have "subseq (zs @ ys) (node_element_ids [ev] @ node_element_ids evs)"
    using zs(2) ys(2) by (rule list_emb_append_mono)
  then have "subseq (zs @ ys) (node_element_ids (ev # evs))"
    by (simp only: node_element_ids_Cons[of ev evs])
  then show ?case using ys(1) zs(1) by auto
qed

lemma subseq_distinct:
  "subseq xs ys \<Longrightarrow> distinct ys \<Longrightarrow> distinct xs"
proof (induction rule: list_emb.induct)
  case (list_emb_Cons2 x y xs ys)
  then have "x \<notin> set xs" using list_emb_set[of "(=)" xs ys] by auto
  with list_emb_Cons2 show ?case by simp
qed simp_all

lemma read_events_distinct:
  assumes "read_events evs initial_state = Inr st" "distinct (node_element_ids evs)"
  shows "distinct (st_node_ids st)"
proof -
  from read_events_node_ids[OF assms(1)] obtain ys where
    "st_node_ids st = st_node_ids initial_state @ ys" "subseq ys (node_element_ids evs)" by blast
  then show ?thesis using assms(2) by (auto simp: initial_state_def dest: subseq_distinct)
qed

lemma read_events_ids_within_nodes:
  "read_events evs st = Inr st' \<Longrightarrow>
   st_node_ids st' = st_node_ids st @ ids_within_nodes (st_context st) evs"
proof (induction evs arbitrary: st)
  case Nil
  then show ?case by simp
next
  case (Cons ev evs)
  show ?case
  proof (cases ev)
    case (StartElem tag attrs)
    then have r: "read_events evs (handle_event (StartElem tag attrs) st) = Inr st'"
      using Cons.prems by simp
    from Cons.IH[OF r] show ?thesis
      by (auto simp: StartElem split: option.splits if_splits)
  next
    case (EndElem tag)
    then have r: "read_events evs (handle_event (EndElem tag) st) = Inr st'"
      using Cons.prems by simp
    from Cons.IH[OF r] show ?thesis
      by (auto simp: EndElem split: if_splits)
  next
    case Malformed
    then show ?thesis using Cons.prems by simp
  qed
qed

section \<open>The loader\<close>

lemma parse_results:
  assumes "parse_network_iterative (XmlFile evs) = Inr (ns, ol)
         \<or> parse_network_iterative_seg (XmlFile evs) = Inr (ns, ol)
         \<or> parse_network_iterative_grp (XmlFile evs) = Inr (ns, ol)"
  shows "\<exists>st. read_events evs initial_state = Inr st \<and> ns = st_node_ids st \<and> ol = st_outgoing_links st"
  using assms
  by (auto simp: parse_network_iterative_def parse_network_iterative_seg_def
        parse_network_iterative_grp_def Let_def split: sum.splits if_splits)

text \<open>
  Claim C8, as the code has it. When the document holds at least one node and at least one
  link with \<^verbatim>\<open>from\<close> and \<^verbatim>\<open>id\<close>, and no node is a valid origin, the loaders of the
  basic and of the aggregating script fail; the loader of the segmented script returns the
  nodes and the links it read, and it is the segmented generator that then returns
  \<^verbatim>\<open>False\<close> without writing a trip.
\<close>

theorem network_without_valid_origin:
  assumes "read_events evs initial_state = Inr st"
    and "st_node_ids st \<noteq> []" and "st_outgoing_links st \<noteq> []"
    and "valid_origin_nodes (st_node_ids st) (st_outgoing_links st) = []"
  shows "parse_network_iterative (XmlFile evs) = Inl NoValidOrigin \<and>
         parse_network_iterative_grp (XmlFile evs) = Inl NoValidOrigin \<and>
         parse_network_iterative_seg (XmlFile evs) = Inr (st_node_ids st, st_outgoing_links st) \<and>
         generate_and_write_trips_iterative_seg (st_node_ids st) (st_outgoing_links st)
           n mx slots pct g = ([], Returns False)"
proof -
  have f: "filter (is_valid_origin (st_outgoing_links st)) (st_node_ids st) = []"
    using assms(4) by (simp add: valid_origin_nodes_def)
  then have z: "\<forall>x\<in>set (st_node_ids st). \<not> is_valid_origin (st_outgoing_links st) x"
    by (simp add: filter_empty_conv)
  have s: "sum_list (map (\<lambda>node. if is_valid_origin (st_outgoing_links st) node then 1 else 0)
             (st_node_ids st)) = (0::nat)"
    using z by (induction "st_node_ids st") auto
  show ?thesis using assms f s
    by (simp add: parse_network_iterative_def parse_network_iterative_grp_def
        parse_network_iterative_seg_def generate_and_write_trips_iterative_seg_def)
qed

lemma orphan_link_document:
  "read_events
     [StartElem ''network'' [], StartElem ''nodes'' [], StartElem ''node'' [(''id'', ''a'')],
      EndElem ''node'', EndElem ''nodes'', StartElem ''links'' [],
      StartElem ''link'' [(''id'', ''l1''), (''from'', ''b''), (''to'', ''a'')],
      EndElem ''link'', EndElem ''links'', EndElem ''network''] initial_state =
   Inr \<lparr>st_context = None, st_node_ids = [''a''], st_outgoing_links = [(''b'', [''l1''])]\<rparr>"
  by (simp add: initial_state_def get_attr_def dict_append_def)

theorem network_without_valid_origin_witness:
  "parse_network_iterative
     (XmlFile [StartElem ''network'' [], StartElem ''nodes'' [], StartElem ''node'' [(''id'', ''a'')],
      EndElem ''node'', EndElem ''nodes'', StartElem ''links'' [],
      StartElem ''link'' [(''id'', ''l1''), (''from'', ''b''), (''to'', ''a'')],
      EndElem ''link'', EndElem ''links'', EndElem ''network'']) = Inl NoValidOrigin \<and>
   generate_and_write_trips_iterative_seg [''a''] [(''b'', [''l1''])] 1 10 [] 0 (sconst 0) =
     ([], Returns False)"
  using network_without_valid_origin [OF orphan_link_document, of 1 10 "[]" 0 "sconst 0"]
  by (simp add: valid_origin_nodes_def is_valid_origin_def)

text \<open>The claim as the specification states it fails on the segmented loader: one node
  \<open>a\<close>, one link leaving an unknown node \<open>b\<close>, and the loader returns both.\<close>

theorem segmented_loader_counterexample:
  "parse_network_iterative_seg
     (XmlFile [StartElem ''network'' [], StartElem ''nodes'' [], StartElem ''node'' [(''id'', ''a'')],
      EndElem ''node'', EndElem ''nodes'', StartElem ''links'' [],
      StartElem ''link'' [(''id'', ''l1''), (''from'', ''b''), (''to'', ''a'')],
      EndElem ''link'', EndElem ''links'', EndElem ''network'']) =
     Inr ([''a''], [(''b'', [''l1''])]) \<and>
   valid_origin_nodes [''a''] [(''b'', [''l1''])] = []"
  by (simp add: parse_network_iterative_seg_def initial_state_def get_attr_def dict_append_def
      valid_origin_nodes_def is_valid_origin_def)

text \<open>
  Claim C9, as the code has it. The loader appends the identifier of every \<^verbatim>\<open>node\<close>
  element it meets inside \<^verbatim>\<open>nodes\<close> and never looks for it in the list. For every document
  that loads, the node list is exactly the sequence of these identifiers, in document order and
  with every repetition kept; so it is a subsequence of the identifiers of all the \<^verbatim>\<open>node\<close>
  elements of the document, and it is free of duplicates when these are pairwise distinct.
\<close>

theorem loaded_nodes_distinct:
  assumes "parse_network_iterative (XmlFile evs) = Inr (ns, ol)
         \<or> parse_network_iterative_seg (XmlFile evs) = Inr (ns, ol)
         \<or> parse_network_iterative_grp (XmlFile evs) = Inr (ns, ol)"
  shows "ns = ids_within_nodes None evs \<and> subseq ns (node_element_ids evs) \<and>
         (distinct (node_element_ids evs) \<longrightarrow> distinct ns)"
proof -
  from parse_results[OF assms(1)] obtain st where
    st: "read_events evs initial_state = Inr st" "ns = st_node_ids st" by blast
  from read_events_ids_within_nodes[OF st(1)] have e: "ns = ids_within_nodes None evs"
    by (simp add: st(2) initial_state_def)
  from read_events_node_ids[OF st(1)] have s: "subseq ns (node_element_ids evs)"
    by (auto simp: st(2) initial_state_def)
  then have "distinct (node_element_ids evs) \<longrightarrow> distinct ns" by (auto dest: subseq_distinct)
  then show ?thesis using e s by simp
qed

theorem loaded_nodes_distinct_witness:
  "parse_network_iterative
     (XmlFile [StartElem ''node'' [(''id'', ''c'')], EndElem ''node'',
        StartElem ''nodes'' [], StartElem ''node'' [(''id'', ''a'')], EndElem ''node'',
        StartElem ''node'' [(''id'', ''b'')], EndElem ''node'', EndElem ''nodes'']) =
     Inr ([''a'', ''b''], []) \<and>
   [''a'', ''b''] =
     ids_within_nodes None [StartElem ''node'' [(''id'', ''c'')], EndElem ''node'',
        StartElem ''nodes'' [], StartElem ''node'' [(''id'', ''a'')], EndElem ''node'',
        StartElem ''node'' [(''id'', ''b'')], EndElem ''node'', EndElem ''nodes''] \<and>
   subseq [''a'', ''b'']
     (node_element_ids [StartElem ''node'' [(''id'', ''c'')], EndElem ''node'',
        StartElem ''nodes'' [], StartElem ''node'' [(''id'', ''a'')], EndElem ''node'',
        StartElem ''node'' [(''id'', ''b'')], EndElem ''node'', EndElem ''nodes'']) \<and>
   distinct (node_element_ids [StartElem ''node'' [(''id'', ''c'')], EndElem ''node'',
        StartElem ''nodes'' [], StartElem ''node'' [(''id'', ''a'')], EndElem ''node'',
        StartElem ''node'' [(''id'', ''b'')], EndElem ''node'', EndElem ''nodes'']) \<and>
   distinct [''a'', ''b'']"
proof -
  let ?evs = "[StartElem ''node'' [(''id'', ''c'')], EndElem ''node'',
        StartElem ''nodes'' [], StartElem ''node'' [(''id'', ''a'')], EndElem ''node'',
        StartElem ''node'' [(''id'', ''b'')], EndElem ''node'', EndElem ''nodes'']"
  have p: "parse_network_iterative (XmlFile ?evs) = Inr ([''a'', ''b''], [])"
    by (simp add: parse_network_iterative_def initial_state_def get_attr_def)
  have d: "distinct (node_element_ids ?evs)" by (simp add: get_attr_def)
  note t = loaded_nodes_distinct [OF disjI1, OF p]
  from t have t1: "[''a'', ''b''] = ids_within_nodes None ?evs" by (rule conjunct1)
  from t have t2: "subseq [''a'', ''b''] (node_element_ids ?evs)" by blast
  from t d have t3: "distinct [''a'', ''b'']" by blast
  show ?thesis by (intro conjI) (rule p t1 t2 d t3)+
qed

text \<open>The claim as the specification states it fails: two \<^verbatim>\<open>node\<close> elements with the same
  identifier are both kept, by each of the three loaders.\<close>

theorem duplicate_nodes_counterexample:
  "parse_network_iterative
     (XmlFile [StartElem ''nodes'' [], StartElem ''node'' [(''id'', ''a'')], EndElem ''node'',
        StartElem ''node'' [(''id'', ''a'')], EndElem ''node'', EndElem ''nodes'']) =
     Inr ([''a'', ''a''], []) \<and>
   parse_network_iterative_seg
     (XmlFile [StartElem ''nodes'' [], StartElem ''node'' [(''id'', ''a'')], EndElem ''node'',
        StartElem ''node'' [(''id'', ''a'')], EndElem ''node'', EndElem ''nodes'']) =
     Inr ([''a'', ''a''], []) \<and>
   parse_network_iterative_grp
     (XmlFile [StartElem ''nodes'' [], StartElem ''node'' [(''id'', ''a'')], EndElem ''node'',
        StartElem ''node'' [(''id'', ''a'')], EndElem ''node'', EndElem ''nodes'']) =
     Inr ([''a'', ''a''], []) \<and>
   \<not> distinct [''a'', ''a'']"
  by (simp add: parse_network_iterative_def parse_network_iterative_seg_def
      parse_network_iterative_grp_def initial_state_def get_attr_def)

lemma aggregate_loop_raw:
  "aggregate_loop n ns ol vs mx m g =
     (case raw_trips n ns ol vs mx g of
        Returns raws \<Rightarrow> Returns (foldl aggregate_trip m raws)
      | Raises e \<Rightarrow> Raises e
      | NeverReturns \<Rightarrow> NeverReturns)"
  by (induction n arbitrary: m g) (auto split: option.splits sum.splits run.splits)

lemma raw_trips_length:
  "raw_trips n ns ol vs mx g = Returns raws \<Longrightarrow> length raws = n"
  by (induction n arbitrary: g raws) (auto split: option.splits sum.splits run.splits)

lemma aggregate_trip_keys:
  "map fst (aggregate_trip m s) =
     (if trip_key s \<in> set (map fst m) then map fst m else map fst m @ [trip_key s])"
proof (cases "map_of m (trip_key s)")
  case None
  then have "trip_key s \<notin> fst ` set m" by (simp add: map_of_eq_None_iff)
  then show ?thesis using None
    by (simp add: aggregate_trip_def map_add_def update_keys)
next
  case (Some v)
  then have "trip_key s \<in> fst ` set m" by (metis domI dom_map_of_conv_image_fst)
  then show ?thesis using Some
    by (cases v) (simp add: aggregate_trip_def update_keys)
qed

lemma aggregate_trip_distinct:
  "distinct (map fst m) \<Longrightarrow> distinct (map fst (aggregate_trip m s))"
  by (simp add: aggregate_trip_keys)

lemma aggregate_trip_count:
  "map_count (aggregate_trip m s) k = map_count m k + (if trip_key s = k then 1 else 0)"
  by (auto simp: aggregate_trip_def Let_def map_count_def update_conv' split: option.splits)

lemma update_total:
  "map_of m k = Some (c, l) \<Longrightarrow> map_total (AList.update k (c', l') m) = map_total m - c + c'"
  by (induction m) (auto simp: map_total_def)

lemma aggregate_trip_total: "map_total (aggregate_trip m s) = map_total m + 1"
proof (cases "map_of m (trip_key s)")
  case None
  have "map_of (m @ [(trip_key s, (0, s_link_origin s))]) (trip_key s) = Some (0, s_link_origin s)"
    using None by (simp add: map_add_def)
  then show ?thesis using None
    by (simp add: aggregate_trip_def update_total[where c=0]) (simp add: map_total_def)
next
  case (Some v)
  then show ?thesis
    by (cases v) (simp add: aggregate_trip_def update_total)
qed

lemma aggregate_trip_key_set:
  "set (map fst (aggregate_trip m s)) = insert (trip_key s) (set (map fst m))"
  by (cases "trip_key s \<in> set (map fst m)") (simp_all add: aggregate_trip_keys insert_absorb)

lemma foldl_aggregate_keys:
  "set (map fst (foldl aggregate_trip m raws)) = set (map fst m) \<union> trip_key ` set raws"
proof (induction raws arbitrary: m)
  case Nil
  show ?case by simp
next
  case (Cons a raws)
  have "set (map fst (foldl aggregate_trip (aggregate_trip m a) raws)) =
        set (map fst (aggregate_trip m a)) \<union> trip_key ` set raws" by (rule Cons.IH)
  then show ?case by (simp only: foldl_Cons aggregate_trip_key_set) auto
qed

lemma foldl_aggregate_distinct:
  "distinct (map fst m) \<Longrightarrow> distinct (map fst (foldl aggregate_trip m raws))"
  by (induction raws arbitrary: m) (auto simp: aggregate_trip_distinct)

lemma foldl_aggregate_count:
  "map_count (foldl aggregate_trip m raws) k =
     map_count m k + int (length (filter (\<lambda>s. trip_key s = k) raws))"
  by (induction raws arbitrary: m) (auto simp: aggregate_trip_count)

lemma foldl_aggregate_total:
  "map_total (foldl aggregate_trip m raws) = map_total m + int (length raws)"
  by (induction raws arbitrary: m) (auto simp: aggregate_trip_total)

lemma render_key_inj: "render_key a = render_key b \<Longrightarrow> a = b"
  by (cases a, cases b) (auto simp: render_key_def dest: str_int_inj)

lemma rendered_key_eq: "rendered_key s = render_key (trip_key s)"
  by (simp add: rendered_key_def render_key_def trip_key_def)

lemma final_trips_length: "length (final_trips_for_xml ts) = length ts"
  by (simp add: final_trips_for_xml_def)

lemma final_trips_nth:
  "i < length ts \<Longrightarrow>
   final_trips_for_xml ts ! i =
     \<lparr>f_origin = p_origin (ts ! i), f_destination = p_destination (ts ! i),
      f_start = str_int (p_start (ts ! i)), f_count = p_count (ts ! i),
      f_link_origin = p_link_origin (ts ! i), f_mode = p_mode (ts ! i),
      f_digital_rails_capable = p_digital_rails_capable (ts ! i),
      f_name = ''trip_'' @ str_int (int i + 1)\<rparr>"
  by (simp add: final_trips_for_xml_def nth_enumerate_eq)

lemma final_trips_keys:
  "map final_key (final_trips_for_xml ts) = map (render_key \<circ> processed_key) ts"
  by (rule nth_equalityI)
     (simp_all add: final_trips_length final_trips_nth final_key_def render_key_def processed_key_def)

lemma final_trips_counts: "map f_count (final_trips_for_xml ts) = map p_count ts"
  by (rule nth_equalityI) (simp_all add: final_trips_length final_trips_nth)

lemma final_trips_starts:
  "map (\<lambda>t. int_of_str (f_start t)) (final_trips_for_xml ts) = map p_start ts"
  by (rule nth_equalityI) (simp_all add: final_trips_length final_trips_nth int_of_str_str_int)

lemma processed_keys: "map processed_key (processed_trips_list m) = map fst m"
  by (auto simp: processed_trips_list_def processed_key_def)

lemma processed_counts: "sum_list (map p_count (processed_trips_list m)) = map_total m"
proof -
  have "map p_count (processed_trips_list m) = map (\<lambda>(k, (c, l)). c) m"
    by (auto simp: processed_trips_list_def)
  then show ?thesis by (simp add: map_total_def)
qed

lemma sum_list_sort_key: "sum_list (map (f :: 'a \<Rightarrow> int) (sort_key k xs)) = sum_list (map f xs)"
proof -
  have "sum_mset (mset (map f (sort_key k xs))) = sum_mset (mset (map f xs))" by simp
  then show ?thesis by (simp only: sum_mset_sum_list)
qed

lemma out_keys_mset:
  "mset (map final_key (final_trips_for_xml (sorted_trips_list m))) = mset (map render_key (map fst m))"
proof -
  have "mset (map (render_key \<circ> processed_key) (sort_key p_start (processed_trips_list m)))
        = mset (map (render_key \<circ> processed_key) (processed_trips_list m))" by simp
  also have "\<dots> = mset (map render_key (map processed_key (processed_trips_list m)))" by simp
  finally show ?thesis by (simp only: final_trips_keys sorted_trips_list_def processed_keys)
qed

lemma out_distinct:
  assumes "distinct (map fst m)"
  shows "distinct (map final_key (final_trips_for_xml (sorted_trips_list m)))"
proof -
  have "distinct (map render_key (map fst m))"
    using assms by (auto simp: distinct_map inj_on_def dest: render_key_inj)
  then show ?thesis using out_keys_mset[of m] by (metis mset_eq_imp_distinct_iff)
qed

lemma out_key_set:
  "set (map final_key (final_trips_for_xml (sorted_trips_list m))) = render_key ` set (map fst m)"
proof -
  have "set_mset (mset (map final_key (final_trips_for_xml (sorted_trips_list m))))
        = set_mset (mset (map render_key (map fst m)))" by (simp only: out_keys_mset)
  then show ?thesis by (simp add: image_image)
qed

lemma out_total:
  "sum_list (map f_count (final_trips_for_xml (sorted_trips_list m))) = map_total m"
  by (simp add: final_trips_counts sorted_trips_list_def sum_list_sort_key processed_counts)

lemma out_count:
  assumes d: "distinct (map fst m)" and t: "t \<in> set (final_trips_for_xml (sorted_trips_list m))"
  shows "\<exists>k. final_key t = render_key k \<and> f_count t = map_count m k \<and> k \<in> set (map fst m)"
proof -
  let ?ts = "sorted_trips_list m"
  from t obtain i where i: "i < length ?ts" "t = final_trips_for_xml ?ts ! i"
    by (auto simp: in_set_conv_nth final_trips_length)
  have "?ts ! i \<in> set ?ts" using i(1) by simp
  then have "?ts ! i \<in> set (processed_trips_list m)" by (simp add: sorted_trips_list_def)
  then obtain k c l where kv: "(k, (c, l)) \<in> set m"
    "processed_key (?ts ! i) = k" "p_count (?ts ! i) = c"
    by (auto simp: processed_trips_list_def processed_key_def)
  have "map_of m k = Some (c, l)" using d kv(1) by simp
  then have "map_count m k = c" by (simp add: map_count_def)
  moreover have "final_key t = render_key (processed_key (?ts ! i))" "f_count t = p_count (?ts ! i)"
    using i by (simp_all add: final_trips_nth final_key_def render_key_def processed_key_def)
  then have "final_key t = render_key k" "f_count t = c" using kv by simp_all
  moreover have "k \<in> set (map fst m)" using kv(1) by force
  ultimately show ?thesis by blast
qed

lemma out_sorted:
  "sorted (map (\<lambda>t. int_of_str (f_start t)) (final_trips_for_xml (sorted_trips_list m)))"
  by (simp add: final_trips_starts sorted_trips_list_def)

section \<open>The aggregating generator\<close>

lemma ex_sample:
  "sample_trip [''a'', ''b''] [(''a'', [''l1''])] [''a''] 5 (sconst 7) =
     Some (Inr (\<lparr>s_origin = ''a'', s_link_origin = ''l1'', s_destination = ''b'', s_start_time = 1\<rparr>, sconst 7))"
proof -
  have r: "redraw_destination [''a'', ''b''] ''a'' ''b'' (sconst 7) = Some (Inr (''b'', sconst 7))"
    by (subst redraw_destination.simps) simp
  show ?thesis
    by (simp add: sample_trip_def choice_def randint_def r numeral_2_eq_2[symmetric])
qed

lemma ex_valid: "valid_origin_nodes [''a'', ''b''] [(''a'', [''l1''])] = [''a'']"
  by (simp add: valid_origin_nodes_def is_valid_origin_def)

lemma ex_raw:
  "raw_trips (nat 3) [''a'', ''b''] [(''a'', [''l1''])] (valid_origin_nodes [''a'', ''b''] [(''a'', [''l1''])]) 5 (sconst 7) =
     Returns (replicate 3 \<lparr>s_origin = ''a'', s_link_origin = ''l1'', s_destination = ''b'', s_start_time = 1\<rparr>)"
  by (simp add: ex_valid numeral_3_eq_3 ex_sample)

lemma ex_gen:
  "generate_aggregated_and_sorted_trips [''a'', ''b''] [(''a'', [''l1''])] 3 5 (sconst 7) =
     Returns [\<lparr>f_origin = ''a'', f_destination = ''b'', f_start = ''1'', f_count = 3,
        f_link_origin = ''l1'', f_mode = ''car'', f_digital_rails_capable = ''false'', f_name = ''trip_1''\<rparr>]"
proof -
  have l: "aggregate_loop 3 [''a'', ''b''] [(''a'', [''l1''])] [''a''] 5 [] (sconst 7) =
     Returns [((''a'', ''b'', 1), (3, ''l1''))]"
    by (simp add: numeral_3_eq_3 ex_sample aggregate_trip_def trip_key_def)
  show ?thesis
    by (simp add: generate_aggregated_and_sorted_trips_def ex_valid l sorted_trips_list_def
        processed_trips_list_def final_trips_for_xml_def enumerate_eq_zip str_int_def
        str_nat.simps digit_char_def)
qed

text \<open>
  Claim C5. In the aggregating script, whatever raw trips the loop draws, the output holds
  exactly one record for each distinct key \<open>(origin, destination, start)\<close>: the keys of the
  records are pairwise distinct and they are the keys of the raw trips. The \<^verbatim>\<open>count\<close> of
  a record is the number of raw trips with its key, and the counts add up to the number of
  raw trips, which is the number requested.
\<close>

theorem aggregation_counts:
  assumes "raw_trips (nat n) node_ids ol (valid_origin_nodes node_ids ol) mx g = Returns raws"
  shows "\<exists>out. generate_aggregated_and_sorted_trips node_ids ol n mx g = Returns out
     \<and> distinct (map final_key out)
     \<and> set (map final_key out) = rendered_key ` set raws
     \<and> (\<forall>t\<in>set out. f_count t = int (length (filter (\<lambda>s. rendered_key s = final_key t) raws)))
     \<and> sum_list (map f_count out) = int (length raws)
     \<and> length raws = nat n"
proof -
  let ?m = "foldl aggregate_trip [] raws"
  let ?out = "final_trips_for_xml (sorted_trips_list ?m)"
  have len: "length raws = nat n" using assms by (rule raw_trips_length)
  have loop: "aggregate_loop (nat n) node_ids ol (valid_origin_nodes node_ids ol) mx [] g = Returns ?m"
    using assms by (simp add: aggregate_loop_raw)
  have gen: "generate_aggregated_and_sorted_trips node_ids ol n mx g = Returns ?out"
  proof (cases "node_ids = [] \<or> valid_origin_nodes node_ids ol = []")
    case True
    then have v: "valid_origin_nodes node_ids ol = []" by (auto simp: valid_origin_nodes_def)
    have "nat n = 0"
    proof (rule ccontr)
      assume "nat n \<noteq> 0"
      then obtain k where "nat n = Suc k" by (cases "nat n") auto
      then show False using assms v by (simp add: sample_trip_def choice_def)
    qed
    then have "raws = []" using len by simp
    then show ?thesis using True
      by (auto simp: generate_aggregated_and_sorted_trips_def final_trips_for_xml_def
          sorted_trips_list_def processed_trips_list_def enumerate_eq_zip)
  next
    case False
    then show ?thesis using loop by (simp add: generate_aggregated_and_sorted_trips_def)
  qed
  have d: "distinct (map fst ?m)" by (rule foldl_aggregate_distinct) simp
  have keys: "set (map fst ?m) = trip_key ` set raws" using foldl_aggregate_keys[of "[]" raws] by simp
  have k1: "distinct (map final_key ?out)" using d by (rule out_distinct)
  have "set (map final_key ?out) = render_key ` trip_key ` set raws"
    by (simp only: out_key_set keys)
  also have "\<dots> = rendered_key ` set raws" by (simp add: image_image rendered_key_eq)
  finally have k2: "set (map final_key ?out) = rendered_key ` set raws" .
  have k3: "\<forall>t\<in>set ?out. f_count t = int (length (filter (\<lambda>s. rendered_key s = final_key t) raws))"
  proof
    fix t assume "t \<in> set ?out"
    from out_count[OF d this] obtain k where k: "final_key t = render_key k" "f_count t = map_count ?m k"
      by blast
    have "map_count ?m k = int (length (filter (\<lambda>s. trip_key s = k) raws))"
      using foldl_aggregate_count[of "[]" raws k] by (simp add: map_count_def)
    moreover have "(\<lambda>s. rendered_key s = final_key t) = (\<lambda>s. trip_key s = k)"
      using k(1) by (auto simp: rendered_key_eq dest: render_key_inj)
    ultimately show "f_count t = int (length (filter (\<lambda>s. rendered_key s = final_key t) raws))"
      using k(2) by simp
  qed
  have k4: "sum_list (map f_count ?out) = int (length raws)"
    using foldl_aggregate_total[of "[]" raws] by (simp add: out_total map_total_def)
  show ?thesis using gen k1 k2 k3 k4 len by blast
qed

theorem aggregation_counts_witness:
  "raw_trips (nat 3) [''a'', ''b''] [(''a'', [''l1''])]
     (valid_origin_nodes [''a'', ''b''] [(''a'', [''l1''])]) 5 (sconst 7) =
     Returns (replicate 3 \<lparr>s_origin = ''a'', s_link_origin = ''l1'', s_destination = ''b'',
                            s_start_time = 1\<rparr>) \<and>
   generate_aggregated_and_sorted_trips [''a'', ''b''] [(''a'', [''l1''])] 3 5 (sconst 7) =
     Returns [\<lparr>f_origin = ''a'', f_destination = ''b'', f_start = ''1'', f_count = 3,
        f_link_origin = ''l1'', f_mode = ''car'', f_digital_rails_capable = ''false'',
        f_name = ''trip_1''\<rparr>]"
  using aggregation_counts [OF ex_raw] ex_raw ex_gen by simp

lemma aggregated_from_raws:
  assumes "raw_trips (nat n) node_ids ol (valid_origin_nodes node_ids ol) mx g = Returns raws"
  shows "generate_aggregated_and_sorted_trips node_ids ol n mx g =
           Returns (final_trips_for_xml (sorted_trips_list (foldl aggregate_trip [] raws)))"
proof (cases "node_ids = [] \<or> valid_origin_nodes node_ids ol = []")
  case True
  then have v: "valid_origin_nodes node_ids ol = []" by (auto simp: valid_origin_nodes_def)
  have "nat n = 0"
  proof (rule ccontr)
    assume "nat n \<noteq> 0"
    then obtain k where "nat n = Suc k" by (cases "nat n") auto
    then show False using assms v by (simp add: sample_trip_def choice_def)
  qed
  then have "raws = []" using raw_trips_length[OF assms] by simp
  then show ?thesis using True
    by (auto simp: generate_aggregated_and_sorted_trips_def final_trips_for_xml_def
        sorted_trips_list_def processed_trips_list_def enumerate_eq_zip)
next
  case False
  have "aggregate_loop (nat n) node_ids ol (valid_origin_nodes node_ids ol) mx [] g =
          Returns (foldl aggregate_trip [] raws)"
    using assms by (simp add: aggregate_loop_raw)
  then show ?thesis using False by (simp add: generate_aggregated_and_sorted_trips_def)
qed

lemma ex_sample_3:
  "sample_trip [''a'', ''b''] [(''a'', [''l1''])] [''a''] 5 (0 ## 0 ## 3 ## 9 ## 0 ## 0 ## 3 ## 7 ## sconst 0) =
     Some (Inr (\<lparr>s_origin = ''a'', s_link_origin = ''l1'', s_destination = ''b'', s_start_time = 3\<rparr>,
                0 ## 0 ## 3 ## 7 ## sconst 0))"
proof -
  have r: "redraw_destination [''a'', ''b''] ''a'' ''b'' (9 ## 0 ## 0 ## 3 ## 7 ## sconst 0) =
             Some (Inr (''b'', 9 ## 0 ## 0 ## 3 ## 7 ## sconst 0))"
    by (subst redraw_destination.simps) simp
  show ?thesis
    by (simp add: sample_trip_def choice_def randint_def r numeral_2_eq_2[symmetric])
qed

lemma ex_sample_1:
  "sample_trip [''a'', ''b''] [(''a'', [''l1''])] [''a''] 5 (0 ## 0 ## 3 ## 7 ## sconst 0) =
     Some (Inr (\<lparr>s_origin = ''a'', s_link_origin = ''l1'', s_destination = ''b'', s_start_time = 1\<rparr>,
                sconst 0))"
proof -
  have r: "redraw_destination [''a'', ''b''] ''a'' ''b'' (7 ## sconst 0) =
             Some (Inr (''b'', 7 ## sconst 0))"
    by (subst redraw_destination.simps) simp
  show ?thesis
    by (simp add: sample_trip_def choice_def randint_def r numeral_2_eq_2[symmetric])
qed

lemma ex_raw_two:
  "raw_trips (nat 2) [''a'', ''b''] [(''a'', [''l1''])]
     (valid_origin_nodes [''a'', ''b''] [(''a'', [''l1''])]) 5 (0 ## 0 ## 3 ## 9 ## 0 ## 0 ## 3 ## 7 ## sconst 0) =
     Returns [\<lparr>s_origin = ''a'', s_link_origin = ''l1'', s_destination = ''b'', s_start_time = 3\<rparr>,
              \<lparr>s_origin = ''a'', s_link_origin = ''l1'', s_destination = ''b'', s_start_time = 1\<rparr>]"
  by (simp add: ex_valid numeral_2_eq_2 ex_sample_3 ex_sample_1)

lemma ex_gen_two:
  "generate_aggregated_and_sorted_trips [''a'', ''b''] [(''a'', [''l1''])] 2 5
     (0 ## 0 ## 3 ## 9 ## 0 ## 0 ## 3 ## 7 ## sconst 0) =
     Returns [\<lparr>f_origin = ''a'', f_destination = ''b'', f_start = ''1'', f_count = 1,
        f_link_origin = ''l1'', f_mode = ''car'', f_digital_rails_capable = ''false'', f_name = ''trip_1''\<rparr>,
       \<lparr>f_origin = ''a'', f_destination = ''b'', f_start = ''3'', f_count = 1,
        f_link_origin = ''l1'', f_mode = ''car'', f_digital_rails_capable = ''false'', f_name = ''trip_2''\<rparr>]"
  by (simp add: aggregated_from_raws[OF ex_raw_two] aggregate_trip_def trip_key_def
        sorted_trips_list_def processed_trips_list_def final_trips_for_xml_def enumerate_eq_zip
        str_int_def str_nat.simps digit_char_def)

text \<open>
  Claim C6. Whatever raw trips the loop of the aggregating script draws, the script returns
  a list that holds exactly one record for each key of a raw trip, in non-decreasing order of
  the numeric value of \<^verbatim>\<open>start\<close>, and the record at position \<open>i\<close> of this list (counted
  from 1) is named \<^verbatim>\<open>trip_i\<close>: the names follow the sorted order, not the order in which
  the trips were drawn.
\<close>

theorem aggregated_output_order:
  assumes "raw_trips (nat n) node_ids ol (valid_origin_nodes node_ids ol) mx g = Returns raws"
  shows "\<exists>out. generate_aggregated_and_sorted_trips node_ids ol n mx g = Returns out
     \<and> distinct (map final_key out)
     \<and> set (map final_key out) = rendered_key ` set raws
     \<and> sorted (map (\<lambda>t. int_of_str (f_start t)) out)
     \<and> (\<forall>i<length out. f_name (out ! i) = ''trip_'' @ str_int (int i + 1))"
proof -
  let ?m = "foldl aggregate_trip [] raws"
  let ?out = "final_trips_for_xml (sorted_trips_list ?m)"
  have gen: "generate_aggregated_and_sorted_trips node_ids ol n mx g = Returns ?out"
    using assms by (rule aggregated_from_raws)
  have d: "distinct (map fst ?m)" by (rule foldl_aggregate_distinct) simp
  have keys: "set (map fst ?m) = trip_key ` set raws" using foldl_aggregate_keys[of "[]" raws] by simp
  have k1: "distinct (map final_key ?out)" using d by (rule out_distinct)
  have "set (map final_key ?out) = render_key ` trip_key ` set raws"
    by (simp only: out_key_set keys)
  also have "\<dots> = rendered_key ` set raws" by (simp add: image_image rendered_key_eq)
  finally have k2: "set (map final_key ?out) = rendered_key ` set raws" .
  have k3: "sorted (map (\<lambda>t. int_of_str (f_start t)) ?out)" by (rule out_sorted)
  have k4: "\<forall>i<length ?out. f_name (?out ! i) = ''trip_'' @ str_int (int i + 1)"
    by (simp add: final_trips_nth final_trips_length)
  show ?thesis using gen k1 k2 k3 k4 by blast
qed

theorem aggregated_output_order_witness:
  "raw_trips (nat 2) [''a'', ''b''] [(''a'', [''l1''])]
     (valid_origin_nodes [''a'', ''b''] [(''a'', [''l1''])]) 5 (0 ## 0 ## 3 ## 9 ## 0 ## 0 ## 3 ## 7 ## sconst 0) =
     Returns [\<lparr>s_origin = ''a'', s_link_origin = ''l1'', s_destination = ''b'', s_start_time = 3\<rparr>,
              \<lparr>s_origin = ''a'', s_link_origin = ''l1'', s_destination = ''b'', s_start_time = 1\<rparr>] \<and>
   generate_aggregated_and_sorted_trips [''a'', ''b''] [(''a'', [''l1''])] 2 5
     (0 ## 0 ## 3 ## 9 ## 0 ## 0 ## 3 ## 7 ## sconst 0) =
     Returns [\<lparr>f_origin = ''a'', f_destination = ''b'', f_start = ''1'', f_count = 1,
        f_link_origin = ''l1'', f_mode = ''car'', f_digital_rails_capable = ''false'', f_name = ''trip_1''\<rparr>,
       \<lparr>f_origin = ''a'', f_destination = ''b'', f_start = ''3'', f_count = 1,
        f_link_origin = ''l1'', f_mode = ''car'', f_digital_rails_capable = ''false'', f_name = ''trip_2''\<rparr>]"
proof -
  from aggregated_output_order [OF ex_raw_two] obtain out where
    "generate_aggregated_and_sorted_trips [''a'', ''b''] [(''a'', [''l1''])] 2 5
       (0 ## 0 ## 3 ## 9 ## 0 ## 0 ## 3 ## 7 ## sconst 0) = Returns out" by blast
  then show ?thesis using ex_raw_two ex_gen_two by simp
qed

section \<open>Drawing one trip\<close>

lemma choice_mem: "choice xs g = Inr (x, g') \<Longrightarrow> x \<in> set xs \<and> g' = stl g"
  by (auto simp: choice_def split: if_splits)
lemma choice_ok: "xs \<noteq> [] \<Longrightarrow> choice xs g = Inr (xs ! (shd g mod length xs), stl g)"
  by (simp add: choice_def)
lemma randint_bounds: "randint a b g = Inr (t, g') \<Longrightarrow> a \<le> t \<and> t \<le> b \<and> g' = stl g"
proof -
  assume r: "randint a b g = Inr (t, g')"
  then have ab: "a \<le> b" and t: "t = a + int (shd g mod nat (b - a + 1))" and g: "g' = stl g"
    by (auto simp: randint_def split: if_splits)
  have "shd g mod nat (b - a + 1) < nat (b - a + 1)" using ab by (intro mod_less_divisor) simp
  then show ?thesis using t g ab by linarith
qed
lemma randint_ok: "a \<le> b \<Longrightarrow> \<exists>t. randint a b g = Inr (t, stl g)"
  by (simp add: randint_def)

lemma redraw_destination_differs_aux:
  assumes "redraw_destination ns orig d g = Some r"
  shows "\<forall>d' g'. r = Inr (d', g') \<longrightarrow> \<not> (1 < length ns \<and> d' = orig)"
  by (rule redraw_destination.raw_induct[where P="\<lambda>ns orig d g r. \<forall>d' g'. r = Inr (d', g') \<longrightarrow> \<not> (1 < length ns \<and> d' = orig)", OF _ assms])
     (auto split: if_splits sum.splits prod.splits)

lemma redraw_destination_differs:
  "redraw_destination ns orig d g = Some (Inr (d', g')) \<Longrightarrow> 1 < length ns \<Longrightarrow> d' \<noteq> orig"
  using redraw_destination_differs_aux by blast

lemma redraw_destination_stuck_aux:
  assumes "redraw_destination ns orig d g = Some r"
  shows "\<not> (1 < length ns \<and> d = orig \<and> set ns \<subseteq> {orig})"
proof (rule redraw_destination.raw_induct[where P="\<lambda>ns orig d g r. \<not> (1 < length ns \<and> d = orig \<and> set ns \<subseteq> {orig})", OF _ assms])
  fix redraw ns orig d g r
  assume IH: "\<And>ns orig d g r. redraw ns orig d g = Some r \<Longrightarrow> \<not> (1 < length ns \<and> d = orig \<and> set ns \<subseteq> {orig})"
    and body: "(if 1 < length ns \<and> d = orig
          then case choice ns g of Inl e \<Rightarrow> Some (Inl e) | Inr (d, g') \<Rightarrow> redraw ns orig d g'
          else Some (Inr (d, g))) = Some r"
  show "\<not> (1 < length ns \<and> d = orig \<and> set ns \<subseteq> {orig})"
  proof
    assume inv: "1 < length ns \<and> d = orig \<and> set ns \<subseteq> {orig}"
    then have ne: "ns \<noteq> []" by auto
    let ?d1 = "ns ! (shd g mod length ns)"
    have "?d1 \<in> set ns" using ne by simp
    then have d1: "?d1 = orig" using inv by auto
    have "redraw ns orig ?d1 (stl g) = Some r" using body inv ne by (simp add: choice_def)
    from IH[OF this] show False using inv d1 by simp
  qed
qed

lemma redraw_destination_never_returns:
  "1 < length ns \<Longrightarrow> set ns \<subseteq> {orig} \<Longrightarrow> redraw_destination ns orig orig g = None"
  using redraw_destination_stuck_aux[of ns orig orig g] by (cases "redraw_destination ns orig orig g") auto

lemma fair_stl: "fair n g \<Longrightarrow> fair n (stl g)"
  unfolding fair_def
proof (intro allI impI)
  fix k i assume f: "\<forall>k. \<forall>i<n. \<exists>m\<ge>k. g !! m mod n = i" and i: "i < n"
  then obtain m where m: "m \<ge> Suc k" "g !! m mod n = i" by blast
  then obtain m' where "m = Suc m'" by (cases m) auto
  then show "\<exists>m\<ge>k. stl g !! m mod n = i" using m by (intro exI[of _ m']) auto
qed

lemma fair_sdrop: "fair n g \<Longrightarrow> fair n (sdrop j g)"
  by (induction j arbitrary: g) (auto intro: fair_stl)

lemma redraw_destination_returns:
  assumes "g !! m mod length ns = i" "i < length ns" "ns ! i \<noteq> orig"
  shows "\<exists>d' j. redraw_destination ns orig d g = Some (Inr (d', sdrop j g))"
  using assms
proof (induction m arbitrary: d g)
  case 0
  then have ne: "ns \<noteq> []" by auto
  show ?case
  proof (cases "1 < length ns \<and> d = orig")
    case True
    have "redraw_destination ns orig (ns ! i) (stl g) = Some (Inr (ns ! i, sdrop 1 g))"
      using 0 by (subst redraw_destination.simps) simp
    then have "redraw_destination ns orig d g = Some (Inr (ns ! i, sdrop 1 g))"
      using True ne 0 by (subst redraw_destination.simps) (simp add: choice_def)
    then show ?thesis by blast
  next
    case False
    then have "redraw_destination ns orig d g = Some (Inr (d, sdrop 0 g))"
      by (subst redraw_destination.simps) auto
    then show ?thesis by blast
  qed
next
  case (Suc m)
  then have ne: "ns \<noteq> []" by auto
  show ?case
  proof (cases "1 < length ns \<and> d = orig")
    case True
    have "stl g !! m mod length ns = i" using Suc.prems by simp
    from Suc.IH[OF this Suc.prems(2,3)] obtain d' j where
      "redraw_destination ns orig (ns ! (shd g mod length ns)) (stl g) = Some (Inr (d', sdrop j (stl g)))"
      by blast
    then have "redraw_destination ns orig d g = Some (Inr (d', sdrop (Suc j) g))"
      using True ne by (subst redraw_destination.simps) (simp add: choice_def)
    then show ?thesis by blast
  next
    case False
    then have "redraw_destination ns orig d g = Some (Inr (d, sdrop 0 g))"
      by (subst redraw_destination.simps) auto
    then show ?thesis by blast
  qed
qed

lemma redraw_destination_fair:
  assumes "fair (length ns) g" "y \<in> set ns" "y \<noteq> orig"
  shows "\<exists>d' j. redraw_destination ns orig d g = Some (Inr (d', sdrop j g))"
proof -
  from assms(2) obtain i where i: "i < length ns" "ns ! i = y" by (auto simp: in_set_conv_nth)
  with assms(1) obtain m where "g !! m mod length ns = i" unfolding fair_def by blast
  then show ?thesis using i assms(3) by (intro redraw_destination_returns) auto
qed

lemma sample_trip_props:
  assumes "sample_trip ns ol vs mx g = Some (Inr (s, g'))"
  shows "s_origin s \<in> set vs \<and> link_of_origin ol (s_origin s) (s_link_origin s) \<and>
         0 \<le> s_start_time s \<and> s_start_time s \<le> mx \<and>
         (1 < length ns \<longrightarrow> s_destination s \<noteq> s_origin s)"
proof -
  from assms obtain o1 g1 where c1: "choice vs g = Inr (o1, g1)"
    by (auto simp: sample_trip_def split: sum.splits)
  from assms c1 obtain ls where m: "map_of ol o1 = Some ls"
    by (auto simp: sample_trip_def split: option.splits)
  from assms c1 m obtain l g2 where c2: "choice ls g1 = Inr (l, g2)"
    by (auto simp: sample_trip_def split: sum.splits)
  from assms c1 m c2 obtain d0 g3 where c3: "choice ns g2 = Inr (d0, g3)"
    by (auto simp: sample_trip_def split: sum.splits)
  from assms c1 m c2 c3 obtain d g4 where c4: "redraw_destination ns o1 d0 g3 = Some (Inr (d, g4))"
    by (auto simp: sample_trip_def split: sum.splits option.splits)
  from assms c1 m c2 c3 c4 obtain t g5 where c5: "randint 0 mx g4 = Inr (t, g5)"
    by (auto simp: sample_trip_def split: sum.splits)
  have s: "s = \<lparr>s_origin = o1, s_link_origin = l, s_destination = d, s_start_time = t\<rparr>"
    using assms c1 m c2 c3 c4 c5 by (simp add: sample_trip_def)
  show ?thesis
    using choice_mem[OF c1] choice_mem[OF c2] m randint_bounds[OF c5]
      redraw_destination_differs[OF c4]
    by (auto simp: s link_of_origin_def)
qed

lemma sample_trip_fair:
  assumes f: "fair (length ns) g" and vs: "vs \<noteq> []"
    and valid: "\<forall>v\<in>set vs. is_valid_origin ol v"
    and other: "\<forall>v\<in>set vs. \<exists>y\<in>set ns. y \<noteq> v" and mx: "0 \<le> mx"
  shows "\<exists>s j. sample_trip ns ol vs mx g = Some (Inr (s, sdrop j g))"
proof -
  let ?o = "vs ! (shd g mod length vs)"
  have c1: "choice vs g = Inr (?o, stl g)" using vs by (simp add: choice_def)
  have o: "?o \<in> set vs" using vs by simp
  then obtain ls where m: "map_of ol ?o = Some ls" and ls: "ls \<noteq> []"
    using valid by (auto simp: is_valid_origin_def split: option.splits)
  obtain l where c2: "choice ls (stl g) = Inr (l, stl (stl g))" using ls by (simp add: choice_def)
  from other o obtain y where y: "y \<in> set ns" "y \<noteq> ?o" by blast
  then have ns: "ns \<noteq> []" by auto
  obtain d0 where c3: "choice ns (stl (stl g)) = Inr (d0, sdrop 3 g)"
    using ns by (simp add: choice_def numeral_3_eq_3)
  have "fair (length ns) (sdrop 3 g)" using f by (rule fair_sdrop)
  from redraw_destination_fair[OF this y] obtain d j where
    c4: "redraw_destination ns ?o d0 (sdrop 3 g) = Some (Inr (d, sdrop j (sdrop 3 g)))" by blast
  obtain t where c5: "randint 0 mx (sdrop j (sdrop 3 g)) = Inr (t, stl (sdrop j (sdrop 3 g)))"
    using randint_ok[OF mx] by blast
  have e: "stl (sdrop j (sdrop 3 g)) = sdrop (Suc (3 + j)) g" by (simp add: sdrop_stl[symmetric] del: sdrop.simps)
  have "\<exists>s. sample_trip ns ol vs mx g = Some (Inr (s, stl (sdrop j (sdrop 3 g))))"
    using c1 m c2 c3 c4 c5 by (simp add: sample_trip_def)
  then show ?thesis unfolding e by blast
qed

lemma write_trips_records:
  "write_trips idx ns ol vs mx g = (written, r) \<Longrightarrow>
   \<forall>t\<in>set written. trip_ok vs ol t \<and> 0 \<le> int_of_str (start t) \<and> int_of_str (start t) \<le> mx \<and>
      (1 < length ns \<longrightarrow> destination t \<noteq> origin t)"
proof (induction idx arbitrary: g written r)
  case Nil
  then show ?case by simp
next
  case (Cons i idx)
  show ?case
  proof (cases "sample_trip ns ol vs mx g")
    case None
    then show ?thesis using Cons.prems by simp
  next
    case (Some a)
    show ?thesis
    proof (cases a)
      case (Inl e)
      then show ?thesis using Cons.prems Some by simp
    next
      case (Inr p)
      obtain s g' where p: "p = (s, g')" by (cases p)
      obtain w r' where rec: "write_trips idx ns ol vs mx g' = (w, r')" by (cases "write_trips idx ns ol vs mx g'")
      have wr: "written = make_trip i (s_origin s) (s_destination s) (s_link_origin s) (s_start_time s) # w"
        using Cons.prems Some Inr p rec by simp
      have "sample_trip ns ol vs mx g = Some (Inr (s, g'))" using Some Inr p by simp
      from sample_trip_props[OF this] Cons.IH[OF rec] show ?thesis
        by (auto simp: wr make_trip_def trip_ok_def int_of_str_str_int)
    qed
  qed
qed

lemma write_trips_complete:
  "write_trips idx ns ol vs mx g = (written, Returns True) \<Longrightarrow> length written = length idx"
proof (induction idx arbitrary: g written)
  case Nil
  then show ?case by simp
next
  case (Cons i idx)
  then show ?case
    by (auto split: option.splits sum.splits prod.splits)
qed

lemma write_trips_fair:
  assumes vs: "vs \<noteq> []"
    and valid: "\<forall>v\<in>set vs. is_valid_origin ol v"
    and other: "\<forall>v\<in>set vs. \<exists>y\<in>set ns. y \<noteq> v" and mx: "0 \<le> mx"
  shows "fair (length ns) g \<Longrightarrow> \<exists>written. write_trips idx ns ol vs mx g = (written, Returns True)"
proof (induction idx arbitrary: g)
  case Nil
  then show ?case by simp
next
  case (Cons i idx)
  from sample_trip_fair[OF Cons.prems vs valid other mx] obtain s j where
    s: "sample_trip ns ol vs mx g = Some (Inr (s, sdrop j g))" by blast
  have "fair (length ns) (sdrop j g)" using Cons.prems by (rule fair_sdrop)
  from Cons.IH[OF this] obtain w where "write_trips idx ns ol vs mx (sdrop j g) = (w, Returns True)" by blast
  then show ?case using s by simp
qed

section \<open>The pool of start times\<close>


lemma draw_start_times_ok: "a \<le> b \<Longrightarrow> \<exists>ts g'. draw_start_times k a b g = Inr (ts, g')"
proof (induction k arbitrary: g)
  case 0
  then show ?case by simp
next
  case (Suc k)
  obtain t where r: "randint a b g = Inr (t, stl g)" using randint_ok[OF Suc.prems] by blast
  from Suc.IH[OF Suc.prems] obtain ts g' where "draw_start_times k a b (stl g) = Inr (ts, g')" by blast
  then show ?case using r by simp
qed

lemma draw_start_times_raises: "b < a \<Longrightarrow> 0 < k \<Longrightarrow> draw_start_times k a b g = Inl ValueError"
  by (cases k) (simp_all add: randint_def)


lemma allocate_slots_ok:
  "\<forall>s\<in>set rest. is_usable mx s \<Longrightarrow> \<exists>ts' a' g'. allocate_slots rest n mx ts a g = Inr (ts', a', g')"
proof (induction rest arbitrary: ts a g)
  case Nil
  then show ?case by simp
next
  case (Cons slot rest)
  let ?q = "if rest = [] then n - a else py_round (of_int n * percentage slot)"
  have "start_sec slot \<le> min (end_sec slot) mx" using Cons.prems by (simp add: is_usable_def)
  from draw_start_times_ok[OF this] obtain ds g1 where
    d: "draw_start_times (nat ?q) (start_sec slot) (min (end_sec slot) mx) g = Inr (ds, g1)"
    by blast
  have "\<forall>s\<in>set rest. is_usable mx s" using Cons.prems by simp
  from Cons.IH[OF this] obtain ts' a' g' where
    "allocate_slots rest n mx (ts @ ds) (a + ?q) g1 = Inr (ts', a', g')" by blast
  then show ?case using d by (simp add: Let_def)
qed

lemma find_Some_mem: "List.find P xs = Some x \<Longrightarrow> P x \<and> x \<in> set xs"
  by (induction xs) (auto split: if_splits)

lemma target_slot_Some:
  "target_slot_for_remainder slots mx = Some (x, y) \<Longrightarrow>
   \<exists>s\<in>set slots. is_usable mx s \<and> x = start_sec s \<and> y = min (end_sec s) mx"
proof -
  assume a: "target_slot_for_remainder slots mx = Some (x, y)"
  then obtain s where s: "List.find (is_usable mx) (rev slots) = Some s"
    and xy: "x = start_sec s" "y = min (end_sec s) mx"
    by (auto simp: target_slot_for_remainder_def split: option.splits)
  from find_Some_mem[OF s] have "is_usable mx s" "s \<in> set slots" by simp_all
  then show ?thesis using xy by blast
qed

lemma fill_remainder_done:
  "\<not> int (length ts) < n \<Longrightarrow> fill_remainder slots n mx ts g = Inr (ts, g)"
  by (subst fill_remainder.simps) simp

lemma fill_remainder_step:
  assumes "int (length ts) < n"
  shows "fill_remainder slots n mx ts g =
     (case randint (fst (refill_range slots mx)) (snd (refill_range slots mx)) g of
        Inl e \<Rightarrow> Inl e
      | Inr (t, g') \<Rightarrow> fill_remainder slots n mx (ts @ [t]) g')"
proof (cases "target_slot_for_remainder slots mx")
  case None
  show ?thesis
  proof (cases "randint 0 mx g")
    case (Inl e)
    then show ?thesis using assms None
      by (subst fill_remainder.simps) (simp add: refill_range_def)
  next
    case (Inr p)
    obtain t g' where p: "p = (t, g')" by (cases p)
    have "(if n \<le> int (length (ts @ [t])) then Inr (ts @ [t], g')
           else fill_remainder slots n mx (ts @ [t]) g') = fill_remainder slots n mx (ts @ [t]) g'"
      using fill_remainder_done[of "ts @ [t]" n slots mx g'] by auto
    then show ?thesis using assms None Inr p
      by (subst fill_remainder.simps) (simp add: refill_range_def)
  qed
next
  case (Some p)
  obtain x y where p: "p = (x, y)" by (cases p)
  show ?thesis using assms Some p
    by (subst fill_remainder.simps) (simp add: refill_range_def)
qed

lemma refill_range_cases:
  "(\<exists>s\<in>set slots. is_usable mx s \<and> refill_range slots mx = (start_sec s, min (end_sec s) mx)) \<or>
   (target_slot_for_remainder slots mx = None \<and> refill_range slots mx = (0, mx))"
proof (cases "target_slot_for_remainder slots mx")
  case None
  then show ?thesis by (simp add: refill_range_def)
next
  case (Some p)
  obtain x y where p: "p = (x, y)" by (cases p)
  from target_slot_Some[OF Some[unfolded p]] show ?thesis using Some p
    by (auto simp: refill_range_def)
qed

lemma fill_remainder_length:
  "fill_remainder slots n mx ts g = Inr (ts', g') \<Longrightarrow> n \<le> int (length ts')"
proof (induction "nat (n - int (length ts))" arbitrary: ts g)
  case 0
  then have "\<not> int (length ts) < n" by simp
  then show ?case using "0.prems" by (simp add: fill_remainder_done)
next
  case (Suc k)
  then have lt: "int (length ts) < n" by simp
  from Suc.prems obtain t g1 where
    rec: "fill_remainder slots n mx (ts @ [t]) g1 = Inr (ts', g')"
    by (auto simp: fill_remainder_step[OF lt] split: sum.splits)
  have "k = nat (n - int (length (ts @ [t])))" using Suc.hyps(2) by simp
  from Suc.hyps(1)[OF this rec] show ?case .
qed


lemma fill_remainder_ok:
  "0 \<le> mx \<Longrightarrow> \<exists>ts' g'. fill_remainder slots n mx ts g = Inr (ts', g')"
proof (induction "nat (n - int (length ts))" arbitrary: ts g)
  case 0
  then have "\<not> int (length ts) < n" by simp
  then show ?case by (simp add: fill_remainder_done)
next
  case (Suc k)
  then have lt: "int (length ts) < n" by simp
  let ?a = "fst (refill_range slots mx)" and ?b = "snd (refill_range slots mx)"
  have "?a \<le> ?b" using refill_range_cases[of slots mx] Suc.prems by (auto simp: is_usable_def)
  from randint_ok[OF this] obtain t where r: "randint ?a ?b g = Inr (t, stl g)" by blast
  have k: "k = nat (n - int (length (ts @ [t])))" using Suc.hyps(2) by simp
  from Suc.hyps(1)[OF k Suc.prems] obtain ts' g' where
    "fill_remainder slots n mx (ts @ [t]) (stl g) = Inr (ts', g')" by blast
  then show ?case using r by (simp add: fill_remainder_step[OF lt])
qed

lemma all_trip_start_times_length:
  assumes "all_trip_start_times slots n mx g = Inr (pool, g')" "0 \<le> n"
  shows "length pool = nat n"
proof -
  from assms(1) obtain ts a g1 ts' where
    "fill_remainder slots n mx ts g1 = Inr (ts', g')" and p: "pool = py_slice_to ts' n"
    by (auto simp: all_trip_start_times_def split: sum.splits)
  from fill_remainder_length[OF this(1)] have "nat n \<le> length ts'" by simp
  then show ?thesis using assms(2) by (simp add: p py_slice_to_def)
qed


lemma all_trip_start_times_ok:
  assumes "\<forall>s\<in>set slots. is_usable mx s" "0 \<le> mx"
  shows "\<exists>pool g'. all_trip_start_times slots n mx g = Inr (pool, g')"
proof -
  from allocate_slots_ok[OF assms(1)] obtain ts a g1 where
    al: "allocate_slots slots n mx [] 0 g = Inr (ts, a, g1)" by blast
  from fill_remainder_ok[OF assms(2)] obtain ts' g' where
    "fill_remainder slots n mx ts g1 = Inr (ts', g')" by blast
  then show ?thesis using al by (simp add: all_trip_start_times_def)
qed


lemma process_slots_start:
  "process_slots inp mx last_end processed tp = Some (ps, tot) \<Longrightarrow>
   \<forall>s\<in>set processed. 0 \<le> start_sec s \<and> start_sec s \<le> mx \<Longrightarrow>
   \<forall>s\<in>set ps. 0 \<le> start_sec s \<and> start_sec s \<le> mx"
proof (induction inp arbitrary: last_end processed tp)
  case Nil
  then show ?case by simp
next
  case (Cons slot_def rest)
  let ?s = "py_int (start_hour slot_def * 3600)"
  let ?e = "py_int (end_hour slot_def * 3600) - 1"
  from Cons.prems(1) have ok: "0 \<le> start_hour slot_def" and nl: "\<not> ?s \<le> last_end"
    by (auto simp: Let_def split: if_splits)
  have s0: "0 \<le> ?s" using ok by (simp add: py_int_def)
  show ?case
  proof (cases "mx < ?s")
    case True
    then have "process_slots rest mx last_end processed tp = Some (ps, tot)"
      using Cons.prems(1) by (auto simp: Let_def split: if_splits)
    from Cons.IH[OF this Cons.prems(2)] show ?thesis .
  next
    case False
    let ?new = "\<lparr>slot_name = in_name slot_def, start_sec = ?s, end_sec = ?e,
                   percentage = in_percentage slot_def\<rparr>"
    have r: "process_slots rest mx ?e (processed @ [?new]) (tp + in_percentage slot_def) = Some (ps, tot)"
      using Cons.prems(1) False by (auto simp: Let_def split: if_splits)
    have "\<forall>s\<in>set (processed @ [?new]). 0 \<le> start_sec s \<and> start_sec s \<le> mx"
      using Cons.prems(2) s0 False by auto
    from Cons.IH[OF r this] show ?thesis .
  qed
qed

lemma parse_time_slots_start:
  assumes "parse_time_slots_json slots_input mx = Some slots"
  shows "slots \<noteq> [] \<and> (\<forall>s\<in>set slots. 0 \<le> start_sec s \<and> start_sec s \<le> mx)"
proof -
  from assms obtain ps tot where
    p: "process_slots (sort_key start_hour slots_input) mx (- 1) [] 0 = Some (ps, tot)"
    and s: "slots = ps \<or> slots = map (\<lambda>slot. slot\<lparr>percentage := percentage slot / tot\<rparr>) ps"
    and ne: "slots \<noteq> []"
    by (auto simp: parse_time_slots_json_def Let_def split: option.splits if_splits)
  from process_slots_start[OF p] have "\<forall>s\<in>set ps. 0 \<le> start_sec s \<and> start_sec s \<le> mx" by simp
  then show ?thesis using s ne by auto
qed

section \<open>The segmented generator: destinations\<close>

lemma shuffle_loop_mset:
  "k < length xs \<Longrightarrow> mset (fst (shuffle_loop k xs g)) = mset xs"
proof (induction k arbitrary: xs g)
  case 0
  then show ?case by simp
next
  case (Suc k)
  let ?j = "shd g mod (Suc k + 1)"
  let ?xs = "xs[Suc k := xs ! ?j, ?j := xs ! Suc k]"
  have "?j < Suc k + 1" by (rule mod_less_divisor) simp
  then have j: "?j < length xs" using Suc.prems by arith
  have m: "mset ?xs = mset xs" using mset_swap[OF j Suc.prems] .
  have "k < length ?xs" using Suc.prems by simp
  from Suc.IH[OF this] have "mset (fst (shuffle_loop k ?xs (stl g))) = mset ?xs" .
  then show ?case using m by (simp add: Let_def)
qed

lemma shuffle_mset: "mset (fst (shuffle xs g)) = mset xs"
proof (cases "xs = []")
  case True
  then show ?thesis by (simp add: shuffle_def)
next
  case False
  then have "length xs - 1 < length xs" by (cases xs) auto
  then show ?thesis unfolding shuffle_def by (rule shuffle_loop_mset)
qed

lemma shuffle_length: "length (fst (shuffle xs g)) = length xs"
  using shuffle_mset[of xs g] by (metis size_mset)

lemma count_true:
  "length (filter (\<lambda>b. b) (fst (shuffle (replicate a True @ replicate b False) g))) = a"
proof -
  let ?ys = "fst (shuffle (replicate a True @ replicate b False) g)"
  have "mset (filter (\<lambda>b. b) ?ys) = filter_mset (\<lambda>b. b) (mset (replicate a True @ replicate b False))"
    by (simp only: mset_filter shuffle_mset)
  also have "\<dots> = mset (filter (\<lambda>b. b) (replicate a True @ replicate b False))"
    by (simp only: mset_filter)
  finally have "length (filter (\<lambda>b. b) ?ys) = length (filter (\<lambda>b. b) (replicate a True @ replicate b False))"
    by (metis size_mset)
  then show ?thesis by simp
qed

lemma retry_destination_stop:
  "\<not> (d = orig \<and> a < m) \<Longrightarrow> retry_destination ns orig d a m g = Inr (d, g)"
  by (subst retry_destination.simps) (simp only: if_False)

lemma retry_destination_again:
  "d = orig \<Longrightarrow> a < m \<Longrightarrow> ns \<noteq> [] \<Longrightarrow>
   retry_destination ns orig d a m g =
     retry_destination ns orig (ns ! (shd g mod length ns)) (Suc a) m (stl g)"
  by (subst retry_destination.simps) (simp add: choice_def)

lemma retry_destination_props:
  "ns \<noteq> [] \<Longrightarrow> \<exists>d' j. retry_destination ns orig d a m g = Inr (d', sdrop j g) \<and> j \<le> m - a \<and>
      d' \<in> insert d (set ns)"
proof (induction "m - a" arbitrary: a d g)
  case 0
  then have "\<not> (d = orig \<and> a < m)" by simp
  then have "retry_destination ns orig d a m g = Inr (d, sdrop 0 g)"
    by (simp add: retry_destination_stop)
  moreover have "(0::nat) \<le> m - a" by simp
  moreover have "d \<in> insert d (set ns)" by simp
  ultimately show ?case by blast
next
  case (Suc k)
  show ?case
  proof (cases "d = orig \<and> a < m")
    case False
    then have "retry_destination ns orig d a m g = Inr (d, sdrop 0 g)"
      by (simp add: retry_destination_stop)
    moreover have "(0::nat) \<le> m - a" by simp
    moreover have "d \<in> insert d (set ns)" by simp
    ultimately show ?thesis by blast
  next
    case True
    let ?d1 = "ns ! (shd g mod length ns)"
    have k: "k = m - Suc a" using Suc.hyps(2) by simp
    from Suc.hyps(1)[OF k Suc.prems] obtain d' j where
      r: "retry_destination ns orig ?d1 (Suc a) m (stl g) = Inr (d', sdrop j (stl g))"
      and j: "j \<le> m - Suc a" and d': "d' \<in> insert ?d1 (set ns)" by blast
    have "?d1 \<in> set ns" using Suc.prems by simp
    then have d2: "d' \<in> insert d (set ns)" using d' by auto
    have "retry_destination ns orig d a m g = Inr (d', sdrop (Suc j) g)"
      using True Suc.prems r by (simp add: retry_destination_again)
    moreover have "Suc j \<le> m - a" using j True by arith
    ultimately show ?thesis using d2 by blast
  qed
qed

lemma choose_destination_forced:
  "f \<or> single \<Longrightarrow> choose_destination ns orig f single g = Inr (orig, g)"
  by (simp add: choose_destination_def)

lemma choose_destination_free:
  assumes "\<not> f" "\<not> single" "ns \<noteq> []"
    and "retry_destination ns orig (ns ! (shd g mod length ns)) 0 (length ns + 5) (stl g) = Inr (d1, g1)"
  shows "choose_destination ns orig f single g =
     (if d1 = orig \<and> filter (\<lambda>n. n \<noteq> orig) ns \<noteq> []
      then Inr (filter (\<lambda>n. n \<noteq> orig) ns ! (shd g1 mod length (filter (\<lambda>n. n \<noteq> orig) ns)), stl g1)
      else Inr (d1, g1))"
  using assms by (simp add: choose_destination_def choice_def Let_def)

lemma choose_destination_props:
  assumes "ns \<noteq> []"
  shows "\<exists>d j. choose_destination ns orig f single g = Inr (d, sdrop j g) \<and> j \<le> length ns + 7 \<and>
      d \<in> insert orig (set ns) \<and>
      (\<not> f \<and> \<not> single \<and> (\<exists>y\<in>set ns. y \<noteq> orig) \<longrightarrow> d \<noteq> orig)"
proof (cases "f \<or> single")
  case True
  then have "choose_destination ns orig f single g = Inr (orig, sdrop 0 g)"
    by (simp add: choose_destination_def)
  moreover have "(0::nat) \<le> length ns + 7" by simp
  moreover have "orig \<in> insert orig (set ns)" by simp
  ultimately show ?thesis using True by blast
next
  case False
  let ?d0 = "ns ! (shd g mod length ns)"
  have d0: "?d0 \<in> set ns" using assms by simp
  from retry_destination_props[OF assms, of orig ?d0 0 "length ns + 5" "stl g"] obtain d1 j where
    r0: "retry_destination ns orig ?d0 0 (length ns + 5) (stl g) = Inr (d1, sdrop j (stl g))"
    and j: "j \<le> length ns + 5" and d1': "d1 \<in> insert ?d0 (set ns)" by auto
  have d1: "d1 \<in> set ns" using d1' d0 by auto
  let ?others = "filter (\<lambda>n. n \<noteq> orig) ns"
  have nf: "\<not> f" "\<not> single" using False by simp_all
  note unfold = choose_destination_free[OF nf assms r0]
  show ?thesis
  proof (cases "d1 = orig \<and> ?others \<noteq> []")
    case True
    let ?d2 = "?others ! (shd (sdrop j (stl g)) mod length ?others)"
    have "0 < length ?others" using True by simp
    then have "shd (sdrop j (stl g)) mod length ?others < length ?others" by (rule mod_less_divisor)
    then have "?d2 \<in> set ?others" by (rule nth_mem)
    then have d2: "?d2 \<in> set ns" "?d2 \<noteq> orig" by simp_all
    from True have "choose_destination ns orig f single g = Inr (?d2, stl (sdrop j (stl g)))"
      unfolding unfold by (rule if_P)
    moreover have "stl (sdrop j (stl g)) = sdrop (j + 2) g" by simp
    ultimately have "choose_destination ns orig f single g = Inr (?d2, sdrop (j + 2) g)"
      by (simp only:)
    moreover have "j + 2 \<le> length ns + 7" using j by simp
    moreover have "?d2 \<in> insert orig (set ns)" using d2 by simp
    ultimately show ?thesis using d2(2) by blast
  next
    case F2: False
    from F2 have "choose_destination ns orig f single g = Inr (d1, sdrop j (stl g))"
      unfolding unfold by (rule if_not_P)
    then have e: "choose_destination ns orig f single g = Inr (d1, sdrop (Suc j) g)"
      by simp
    have n: "(\<exists>y\<in>set ns. y \<noteq> orig) \<longrightarrow> d1 \<noteq> orig" using F2 by (auto simp: filter_empty_conv)
    have "Suc j \<le> length ns + 7" using j by simp
    moreover have "d1 \<in> insert orig (set ns)" using d1 by simp
    ultimately show ?thesis using e n by blast
  qed
qed

lemma sample_trip_seg_props:
  assumes "sample_trip_seg ns ol vs f single g = Inr ((o1, l, d), g')"
  shows "o1 \<in> set vs \<and> link_of_origin ol o1 l \<and> (f \<or> single \<longrightarrow> d = o1) \<and>
         (\<not> f \<and> \<not> single \<and> (\<exists>y\<in>set ns. y \<noteq> o1) \<longrightarrow> d \<noteq> o1) \<and>
         (set ns \<subseteq> {o1} \<longrightarrow> d = o1)"
proof -
  from assms obtain g1 where c1: "choice vs g = Inr (o1, g1)"
    by (auto simp: sample_trip_seg_def split: sum.splits option.splits)
  from assms c1 obtain ls where m: "map_of ol o1 = Some ls"
    by (auto simp: sample_trip_seg_def split: option.splits)
  from assms c1 m obtain g2 where c2: "choice ls g1 = Inr (l, g2)"
    by (auto simp: sample_trip_seg_def split: sum.splits)
  from assms c1 m c2 have c3: "choose_destination ns o1 f single g2 = Inr (d, g')"
    by (auto simp: sample_trip_seg_def split: sum.splits)
  have o: "o1 \<in> set vs" using choice_mem[OF c1] by simp
  have l: "link_of_origin ol o1 l" using choice_mem[OF c2] m by (simp add: link_of_origin_def)
  have forced: "f \<or> single \<longrightarrow> d = o1" using c3 by (auto simp: choose_destination_forced)
  have free: "\<not> f \<and> \<not> single \<and> (\<exists>y\<in>set ns. y \<noteq> o1) \<longrightarrow> d \<noteq> o1"
  proof (intro impI)
    assume a: "\<not> f \<and> \<not> single \<and> (\<exists>y\<in>set ns. y \<noteq> o1)"
    then have ns: "ns \<noteq> []" by auto
    from choose_destination_props[OF ns, of o1 f single g2] c3 a show "d \<noteq> o1" by auto
  qed
  have same: "set ns \<subseteq> {o1} \<longrightarrow> d = o1"
  proof (intro impI)
    assume s: "set ns \<subseteq> {o1}"
    show "d = o1"
    proof (cases "ns = []")
      case True
      then show ?thesis using c3
        by (auto simp: choose_destination_def choice_def split: if_splits)
    next
      case False
      from choose_destination_props[OF False, of o1 f single g2] c3 s show ?thesis by auto
    qed
  qed
  show ?thesis using o l forced free same by simp
qed

lemma sample_trip_seg_ok:
  assumes "vs \<noteq> []" "\<forall>v\<in>set vs. is_valid_origin ol v" "ns \<noteq> []"
  shows "\<exists>r g'. sample_trip_seg ns ol vs f single g = Inr (r, g')"
proof -
  let ?o = "vs ! (shd g mod length vs)"
  have c1: "choice vs g = Inr (?o, stl g)" using assms(1) by (simp add: choice_def)
  have "?o \<in> set vs" using assms(1) by simp
  then obtain ls where m: "map_of ol ?o = Some ls" and ls: "ls \<noteq> []"
    using assms(2) by (auto simp: is_valid_origin_def split: option.splits)
  have c2: "choice ls (stl g) = Inr (ls ! (shd (stl g) mod length ls), stl (stl g))"
    using ls by (simp add: choice_def)
  from choose_destination_props[OF assms(3), of ?o f single "stl (stl g)"] obtain d j where
    "choose_destination ns ?o f single (stl (stl g)) = Inr (d, sdrop j (stl (stl g)))" by blast
  then show ?thesis using c1 m c2 by (simp add: sample_trip_seg_def)
qed

lemma make_trip_sel:
  "origin (make_trip i a b l s) = a" "destination (make_trip i a b l s) = b"
  "link_origin (make_trip i a b l s) = l" "start (make_trip i a b l s) = str_int s"
  "name (make_trip i a b l s) = ''trip_'' @ str_int i"
  by (simp_all add: make_trip_def)

lemma write_trips_seg_Cons:
  assumes "write_trips_seg (i # idx) ns ol vs single sts flags g = (written, r)"
  shows "(written = [] \<and> r = Returns False) \<or>
     (\<exists>o1 l d g' rest. i < length sts \<and> i < length flags \<and>
        sample_trip_seg ns ol vs (flags ! i) single g = Inr ((o1, l, d), g') \<and>
        write_trips_seg idx ns ol vs single sts flags g' = (rest, r) \<and>
        written = make_trip (int i + 1) o1 d l (sts ! i) # rest)"
  using assms by (auto split: if_splits sum.splits prod.splits)

lemma write_trips_seg_records:
  "write_trips_seg idx ns ol vs single sts flags g = (written, r) \<Longrightarrow>
   \<forall>t\<in>set written. trip_ok vs ol t \<and> int_of_str (start t) \<in> set sts \<and>
      (single \<longrightarrow> destination t = origin t) \<and> (set ns \<subseteq> {origin t} \<longrightarrow> destination t = origin t)"
proof (induction idx arbitrary: g written r)
  case Nil
  then show ?case by simp
next
  case (Cons i idx)
  from write_trips_seg_Cons[OF Cons.prems] show ?case
  proof
    assume "written = [] \<and> r = Returns False"
    then show ?thesis by simp
  next
    assume "\<exists>o1 l d g' rest. i < length sts \<and> i < length flags \<and>
        sample_trip_seg ns ol vs (flags ! i) single g = Inr ((o1, l, d), g') \<and>
        write_trips_seg idx ns ol vs single sts flags g' = (rest, r) \<and>
        written = make_trip (int i + 1) o1 d l (sts ! i) # rest"
    then obtain o1 l d g' rest where i: "i < length sts"
      and s: "sample_trip_seg ns ol vs (flags ! i) single g = Inr ((o1, l, d), g')"
      and w: "write_trips_seg idx ns ol vs single sts flags g' = (rest, r)"
      and e: "written = make_trip (int i + 1) o1 d l (sts ! i) # rest" by blast
    note p = sample_trip_seg_props[OF s]
    have "trip_ok vs ol (make_trip (int i + 1) o1 d l (sts ! i))"
      using p by (simp add: trip_ok_def make_trip_sel)
    moreover have "int_of_str (start (make_trip (int i + 1) o1 d l (sts ! i))) \<in> set sts"
      using i by (simp add: make_trip_sel int_of_str_str_int)
    moreover have "single \<longrightarrow> destination (make_trip (int i + 1) o1 d l (sts ! i)) =
        origin (make_trip (int i + 1) o1 d l (sts ! i))"
      using p by (simp add: make_trip_sel)
    moreover have "set ns \<subseteq> {origin (make_trip (int i + 1) o1 d l (sts ! i))} \<longrightarrow>
        destination (make_trip (int i + 1) o1 d l (sts ! i)) =
        origin (make_trip (int i + 1) o1 d l (sts ! i))"
      using p by (simp add: make_trip_sel)
    ultimately show ?thesis using Cons.IH[OF w] e by simp
  qed
qed

lemma write_trips_seg_flags:
  assumes "\<not> single" "\<forall>v\<in>set vs. \<exists>y\<in>set ns. y \<noteq> v"
  shows "write_trips_seg idx ns ol vs single sts flags g = (written, Returns True) \<Longrightarrow>
   map (\<lambda>t. origin t = destination t) written = map (\<lambda>i. flags ! i) idx"
proof (induction idx arbitrary: g written)
  case Nil
  then show ?case by simp
next
  case (Cons i idx)
  from write_trips_seg_Cons[OF Cons.prems] obtain o1 l d g' rest where
      s: "sample_trip_seg ns ol vs (flags ! i) single g = Inr ((o1, l, d), g')"
      and w: "write_trips_seg idx ns ol vs single sts flags g' = (rest, Returns True)"
      and e: "written = make_trip (int i + 1) o1 d l (sts ! i) # rest" by auto
  note p = sample_trip_seg_props[OF s]
  then have "o1 \<in> set vs" by simp
  then have "\<exists>y\<in>set ns. y \<noteq> o1" using assms(2) by blast
  then have "(o1 = d) = (flags ! i)" using p assms(1) by auto
  then show ?case using Cons.IH[OF w] e by (simp add: make_trip_sel)
qed

lemma write_trips_seg_ok:
  assumes "vs \<noteq> []" "\<forall>v\<in>set vs. is_valid_origin ol v" "ns \<noteq> []"
  shows "\<forall>i\<in>set idx. i < length sts \<and> i < length flags \<Longrightarrow>
    \<exists>written. write_trips_seg idx ns ol vs single sts flags g = (written, Returns True) \<and>
       length written = length idx"
proof (induction idx arbitrary: g)
  case Nil
  then show ?case by simp
next
  case (Cons i idx)
  from sample_trip_seg_ok[OF assms, of "flags ! i" single g] obtain o1 l d g' where
    s: "sample_trip_seg ns ol vs (flags ! i) single g = Inr ((o1, l, d), g')"
    by (metis prod_cases3)
  from Cons.prems have "\<forall>i\<in>set idx. i < length sts \<and> i < length flags" by simp
  from Cons.IH[OF this, of g'] obtain rest where
    w: "write_trips_seg idx ns ol vs single sts flags g' = (rest, Returns True)"
    and len: "length rest = length idx" by blast
  show ?case using Cons.prems s w len by simp
qed

section \<open>The start-time pool of the segmented generator\<close>

lemma start_time_pool_exact:
  assumes "\<forall>s\<in>set slots. is_usable mx s" "0 \<le> mx" "0 \<le> n"
  shows "\<exists>pool g'. all_trip_start_times slots n mx g = Inr (pool, g') \<and> length pool = nat n"
proof -
  from all_trip_start_times_ok[OF assms(1,2)] obtain pool g' where
    p: "all_trip_start_times slots n mx g = Inr (pool, g')" by blast
  from all_trip_start_times_length[OF p assms(3)] show ?thesis using p by simp
qed

lemma ex_parse_slots:
  "parse_time_slots_json
     [\<lparr>in_name = ''s0'', start_hour = 0, end_hour = 1, in_percentage = 1 / 2\<rparr>,
      \<lparr>in_name = ''s1'', start_hour = 1, end_hour = 10001 / 10000, in_percentage = 1 / 2\<rparr>] 7200 =
   Some [\<lparr>slot_name = ''s0'', start_sec = 0, end_sec = 3599, percentage = 1 / 2\<rparr>,
         \<lparr>slot_name = ''s1'', start_sec = 3600, end_sec = 3599, percentage = 1 / 2\<rparr>]"
proof -
  have "(90009 / 25 :: rat) = of_int 90009 / of_int 25" by simp
  then have "\<lfloor>(90009 / 25 :: rat)\<rfloor> = 90009 div 25" by (simp only: floor_divide_of_int_eq)
  then have f: "\<lfloor>(90009 / 25 :: rat)\<rfloor> = 3600" by simp
  show ?thesis by (simp add: parse_time_slots_json_def py_int_def f)
qed

lemma ex_pool_raises:
  "all_trip_start_times
     [\<lparr>slot_name = ''s0'', start_sec = 0, end_sec = 3599, percentage = 1 / 2\<rparr>,
      \<lparr>slot_name = ''s1'', start_sec = 3600, end_sec = 3599, percentage = 1 / 2\<rparr>] 2 7200 g =
   Inl ValueError"
  by (simp add: all_trip_start_times_def py_round_def randint_def)

text \<open>
  Claim C2. The pool of start times is meant to hold exactly \<^verbatim>\<open>num_trips\<close> values for every
  list of slots that \<^verbatim>\<open>parse_time_slots_json\<close> keeps, and it does when every kept slot has
  its first second no later than its clipped last second (lemma \<open>start_time_pool_exact\<close>).
  The script does not reach it otherwise. The hours \<open>0\<close> to \<open>1\<close> and \<open>1\<close> to \<open>1.0001\<close>, half of
  the trips each, are kept as the seconds \<open>0\<close> to \<open>3599\<close> and \<open>3600\<close> to \<open>3599\<close>. For the second
  slot the loop takes the branch that sets \<^verbatim>\<open>num_in_this_slot = 0\<close>, the quota is assigned
  again after the branch, and \<^verbatim>\<open>random.randint(3600, 3599)\<close> raises \<^verbatim>\<open>ValueError\<close> before
  the \<^verbatim>\<open>try\<close>: no pool is built and the call does not return.
\<close>

theorem unusable_last_slot_raises:
  "parse_time_slots_json
     [\<lparr>in_name = ''s0'', start_hour = 0, end_hour = 1, in_percentage = 1 / 2\<rparr>,
      \<lparr>in_name = ''s1'', start_hour = 1, end_hour = 10001 / 10000, in_percentage = 1 / 2\<rparr>] 7200 =
   Some [\<lparr>slot_name = ''s0'', start_sec = 0, end_sec = 3599, percentage = 1 / 2\<rparr>,
         \<lparr>slot_name = ''s1'', start_sec = 3600, end_sec = 3599, percentage = 1 / 2\<rparr>] \<and>
   all_trip_start_times
     [\<lparr>slot_name = ''s0'', start_sec = 0, end_sec = 3599, percentage = 1 / 2\<rparr>,
      \<lparr>slot_name = ''s1'', start_sec = 3600, end_sec = 3599, percentage = 1 / 2\<rparr>] 2 7200 g =
   Inl ValueError \<and>
   generate_and_write_trips_iterative_seg [''a'', ''b''] [(''a'', [''l1''])] 2 7200
     [\<lparr>slot_name = ''s0'', start_sec = 0, end_sec = 3599, percentage = 1 / 2\<rparr>,
      \<lparr>slot_name = ''s1'', start_sec = 3600, end_sec = 3599, percentage = 1 / 2\<rparr>] 0 g =
   ([], Raises ValueError)"
  by (simp add: ex_parse_slots ex_pool_raises generate_and_write_trips_iterative_seg_def ex_valid)

section \<open>The choice of the destination\<close>

lemma sdrop_replicate_shift: "sdrop (Suc k) (replicate k x @- s) = stl s"
  by (induction k) simp_all

lemma redraw_destination_many_draws:
  "redraw_destination [''a'', ''b''] ''a'' ''a'' (replicate k 0 @- sconst 3) =
     Some (Inr (''b'', sconst 3))"
proof (induction k)
  case 0
  have "redraw_destination [''a'', ''b''] ''a'' ''b'' (sconst 3) = Some (Inr (''b'', sconst 3))"
    by (subst redraw_destination.simps) simp
  then show ?case
    by (subst redraw_destination.simps) (simp add: choice_def numeral_2_eq_2[symmetric])
next
  case (Suc k)
  have "redraw_destination [''a'', ''b''] ''a'' ''a'' (replicate (Suc k) 0 @- sconst 3) =
        redraw_destination [''a'', ''b''] ''a'' ''a'' (replicate k 0 @- sconst 3)"
    by (subst redraw_destination.simps) (simp add: choice_def)
  then show ?case using Suc by (simp only:)
qed

text \<open>
  Claim C7. Only the segmented script bounds the choice of the destination: at most
  \<^verbatim>\<open>len(node_ids) + 5\<close> redraws after the first draw, then one draw among the other nodes
  (lemma \<open>choose_destination_props\<close>: at most \<open>length ns + 7\<close> values are taken from the
  random source). The loop of the basic and of the aggregating script has no bound. On the
  node list \<open>[a, a]\<close> it never ends, whatever the random source, so neither script returns,
  while the segmented script takes at most nine values on the same list; on the node list
  \<open>[a, b]\<close> it makes \<open>k + 1\<close> draws when the source gives the origin \<open>k\<close> times, for every
  \<open>k\<close>.
\<close>

theorem basic_destination_loop_unbounded:
  "generate_and_write_trips_iterative [''a'', ''a''] [(''a'', [''l1''])] 1 10 g = ([], NeverReturns) \<and>
   generate_aggregated_and_sorted_trips [''a'', ''a''] [(''a'', [''l1''])] 1 10 g = NeverReturns \<and>
   redraw_destination [''a'', ''b''] ''a'' ''a'' (replicate k 0 @- sconst 3) =
     Some (Inr (''b'', sdrop (Suc k) (replicate k 0 @- sconst 3))) \<and>
   (\<exists>d j. choose_destination [''a'', ''a''] ''a'' False False g = Inr (d, sdrop j g) \<and> j \<le> 9)"
proof -
  have v: "valid_origin_nodes [''a'', ''a''] [(''a'', [''l1''])] = [''a'', ''a'']"
    by (simp add: valid_origin_nodes_def is_valid_origin_def)
  have n: "redraw_destination [''a'', ''a''] ''a'' ''a'' h = None" for h
    by (rule redraw_destination_never_returns) simp_all
  have c: "choice [''a'', ''a''] h = Inr (''a'', stl h)" for h
  proof -
    have "shd h mod 2 < 2" by simp
    then have "shd h mod 2 = 0 \<or> shd h mod 2 = 1" by linarith
    then show ?thesis by (auto simp: choice_def numeral_2_eq_2[symmetric])
  qed
  have l: "choice [''l1''] h = Inr (''l1'', stl h)" for h
    by (simp add: choice_def)
  have s: "sample_trip [''a'', ''a''] [(''a'', [''l1''])] [''a'', ''a''] 10 g = None"
    by (simp add: sample_trip_def c l n)
  have b: "generate_and_write_trips_iterative [''a'', ''a''] [(''a'', [''l1''])] 1 10 g = ([], NeverReturns)"
    by (simp add: generate_and_write_trips_iterative_def v s upto.simps)
  have a: "generate_aggregated_and_sorted_trips [''a'', ''a''] [(''a'', [''l1''])] 1 10 g = NeverReturns"
    by (simp add: generate_aggregated_and_sorted_trips_def v s)
  from choose_destination_props[of "[''a'', ''a'']" "''a''" False False g]
  have "\<exists>d j. choose_destination [''a'', ''a''] ''a'' False False g = Inr (d, sdrop j g) \<and> j \<le> 9"
    by auto
  then have e: "\<exists>d j. choose_destination [''a'', ''a''] ''a'' False False g = Inr (d, sdrop j g) \<and> j \<le> 9" .
  have "sdrop (Suc k) (replicate k 0 @- sconst 3) = sconst (3::nat)"
    by (simp only: sdrop_replicate_shift) simp
  then have m: "redraw_destination [''a'', ''b''] ''a'' ''a'' (replicate k 0 @- sconst 3) =
     Some (Inr (''b'', sdrop (Suc k) (replicate k 0 @- sconst 3)))"
    by (simp only: redraw_destination_many_draws)
  show ?thesis by (intro conjI) (rule a b m e)+
qed

section \<open>Whole runs of the generators\<close>

lemma valid_origin_nodes_valid:
  "v \<in> set (valid_origin_nodes ns ol) \<Longrightarrow> is_valid_origin ol v \<and> v \<in> set ns"
  by (simp add: valid_origin_nodes_def)

lemma valid_origin_nodes_nonempty: "valid_origin_nodes ns ol \<noteq> [] \<Longrightarrow> ns \<noteq> []"
  by (auto simp: valid_origin_nodes_def)

lemma other_node:
  assumes "2 \<le> card (set ns)"
  shows "\<exists>y\<in>set ns. y \<noteq> v"
proof (rule ccontr)
  assume "\<not> (\<exists>y\<in>set ns. y \<noteq> v)"
  then have "set ns \<subseteq> {v}" by auto
  then have "card (set ns) \<le> card {v}" by (intro card_mono) auto
  then show False using assms by simp
qed

lemma two_nodes_length: "2 \<le> card (set ns) \<Longrightarrow> 1 < length ns"
  using card_length[of ns] by linarith

lemma target_floor:
  "0 \<le> n \<Longrightarrow> 0 \<le> p \<Longrightarrow> target_od_equal_trips n p = \<lfloor>of_int n * p\<rfloor>"
  by (simp add: target_od_equal_trips_def py_int_def)

lemma target_bounds:
  assumes "0 \<le> n" "0 \<le> p" "p \<le> 1"
  shows "0 \<le> target_od_equal_trips n p \<and> target_od_equal_trips n p \<le> n"
proof -
  have a: "0 \<le> of_int n * p" using assms by simp
  have "of_int n * p \<le> of_int n * 1" using assms by (intro mult_left_mono) simp_all
  then have "\<lfloor>of_int n * p\<rfloor> \<le> \<lfloor>(of_int n :: rat)\<rfloor>" by (intro floor_mono) simp
  then show ?thesis using a assms by (simp add: target_floor)
qed

lemma flags_length: "nat n \<le> length (fst (trip_is_od_equal_flags n p g))"
proof -
  have "nat n \<le> nat (target_od_equal_trips n p) + nat (n - target_od_equal_trips n p)" by linarith
  then show ?thesis by (simp add: trip_is_od_equal_flags_def Let_def shuffle_length)
qed

lemma flags_length_eq:
  assumes "0 \<le> n" "0 \<le> p" "p \<le> 1"
  shows "length (fst (trip_is_od_equal_flags n p g)) = nat n"
proof -
  from target_bounds[OF assms]
  have "nat (target_od_equal_trips n p) + nat (n - target_od_equal_trips n p) = nat n" by linarith
  then show ?thesis by (simp add: trip_is_od_equal_flags_def Let_def shuffle_length)
qed

lemma flags_count:
  "length (filter (\<lambda>b. b) (fst (trip_is_od_equal_flags n p g))) = nat (target_od_equal_trips n p)"
  by (simp add: trip_is_od_equal_flags_def Let_def count_true)

lemma basic_records:
  assumes "generate_and_write_trips_iterative ns ol n mx g = (written, r)" "t \<in> set written"
  shows "trip_ok (valid_origin_nodes ns ol) ol t \<and> 0 \<le> int_of_str (start t) \<and>
         int_of_str (start t) \<le> mx \<and> (1 < length ns \<longrightarrow> destination t \<noteq> origin t)"
proof (cases "ns = [] \<or> valid_origin_nodes ns ol = []")
  case True
  then have "written = []" using assms(1)
    by (auto simp: generate_and_write_trips_iterative_def split: if_splits)
  then show ?thesis using assms(2) by simp
next
  case False
  then have "write_trips [1..n] ns ol (valid_origin_nodes ns ol) mx g = (written, r)"
    using assms(1) by (simp add: generate_and_write_trips_iterative_def)
  from write_trips_records[OF this] assms(2) show ?thesis by blast
qed

lemma basic_run:
  assumes "valid_origin_nodes ns ol \<noteq> []" "2 \<le> card (set ns)" "0 \<le> mx" "fair (length ns) g"
  shows "\<exists>written. generate_and_write_trips_iterative ns ol n mx g = (written, Returns True) \<and>
           length written = nat n"
proof -
  let ?vs = "valid_origin_nodes ns ol"
  have valid: "\<forall>v\<in>set ?vs. is_valid_origin ol v" using valid_origin_nodes_valid by blast
  have other: "\<forall>v\<in>set ?vs. \<exists>y\<in>set ns. y \<noteq> v" using other_node[OF assms(2)] by blast
  from write_trips_fair[OF assms(1) valid other assms(3) assms(4)] obtain written where
    w: "write_trips [1..n] ns ol ?vs mx g = (written, Returns True)" by blast
  from write_trips_complete[OF w] have "length written = nat n" by simp
  moreover have "ns \<noteq> []" using assms(1) by (rule valid_origin_nodes_nonempty)
  ultimately show ?thesis using w assms(1) by (simp add: generate_and_write_trips_iterative_def)
qed

lemma raw_trips_props:
  "raw_trips k ns ol vs mx g = Returns raws \<Longrightarrow>
   \<forall>s\<in>set raws. s_origin s \<in> set vs \<and> link_of_origin ol (s_origin s) (s_link_origin s) \<and>
      0 \<le> s_start_time s \<and> s_start_time s \<le> mx \<and> (1 < length ns \<longrightarrow> s_destination s \<noteq> s_origin s)"
proof (induction k arbitrary: g raws)
  case 0
  then show ?case by simp
next
  case (Suc k)
  from Suc.prems obtain s g' ss where
    s: "sample_trip ns ol vs mx g = Some (Inr (s, g'))" and
    r: "raw_trips k ns ol vs mx g' = Returns ss" and e: "raws = s # ss"
    by (auto split: option.splits sum.splits run.splits)
  from sample_trip_props[OF s] Suc.IH[OF r] show ?case by (simp add: e)
qed

lemma raw_trips_fair:
  assumes vs: "vs \<noteq> []"
    and valid: "\<forall>v\<in>set vs. is_valid_origin ol v"
    and other: "\<forall>v\<in>set vs. \<exists>y\<in>set ns. y \<noteq> v" and mx: "0 \<le> mx"
  shows "fair (length ns) g \<Longrightarrow> \<exists>raws. raw_trips k ns ol vs mx g = Returns raws"
proof (induction k arbitrary: g)
  case 0
  then show ?case by simp
next
  case (Suc k)
  from sample_trip_fair[OF Suc.prems vs valid other mx] obtain s j where
    s: "sample_trip ns ol vs mx g = Some (Inr (s, sdrop j g))" by blast
  have "fair (length ns) (sdrop j g)" using Suc.prems by (rule fair_sdrop)
  from Suc.IH[OF this] obtain ss where "raw_trips k ns ol vs mx (sdrop j g) = Returns ss" by blast
  then show ?case using s by simp
qed


lemma aggregated_keys_from_raws:
  assumes "generate_aggregated_and_sorted_trips ns ol n mx g = Returns out" "t \<in> set out"
  shows "\<exists>raws s. raw_trips (nat n) ns ol (valid_origin_nodes ns ol) mx g = Returns raws \<and>
           s \<in> set raws \<and> final_key t = rendered_key s"
proof (cases "ns = [] \<or> valid_origin_nodes ns ol = []")
  case True
  then have "out = []" using assms(1)
    by (auto simp: generate_aggregated_and_sorted_trips_def split: if_splits)
  then show ?thesis using assms(2) by simp
next
  case False
  let ?vs = "valid_origin_nodes ns ol"
  from False assms(1) obtain m where
    l: "aggregate_loop (nat n) ns ol ?vs mx [] g = Returns m" and
    o: "out = final_trips_for_xml (sorted_trips_list m)"
    by (auto simp: generate_aggregated_and_sorted_trips_def split: run.splits)
  from l obtain raws where r: "raw_trips (nat n) ns ol ?vs mx g = Returns raws"
    and m: "m = foldl aggregate_trip [] raws"
    by (auto simp: aggregate_loop_raw split: run.splits)
  have "final_key t \<in> set (map final_key out)" using assms(2) by simp
  also have "set (map final_key out) = render_key ` set (map fst m)" by (simp only: o out_key_set)
  also have "set (map fst m) = trip_key ` set raws" using foldl_aggregate_keys[of "[]" raws] by (simp add: m)
  finally obtain s where "s \<in> set raws" "final_key t = render_key (trip_key s)" by auto
  then show ?thesis using r by (auto simp: rendered_key_eq)
qed

lemma aggregated_run:
  assumes "valid_origin_nodes ns ol \<noteq> []" "2 \<le> card (set ns)" "0 \<le> mx" "fair (length ns) g"
  shows "\<exists>out. generate_aggregated_and_sorted_trips ns ol n mx g = Returns out \<and>
           sum_list (map f_count out) = int (nat n)"
proof -
  let ?vs = "valid_origin_nodes ns ol"
  have valid: "\<forall>v\<in>set ?vs. is_valid_origin ol v" using valid_origin_nodes_valid by blast
  have other: "\<forall>v\<in>set ?vs. \<exists>y\<in>set ns. y \<noteq> v" using other_node[OF assms(2)] by blast
  from raw_trips_fair[OF assms(1) valid other assms(3) assms(4)] obtain raws where
    r: "raw_trips (nat n) ns ol ?vs mx g = Returns raws" by blast
  have "sum_list (map f_count (final_trips_for_xml (sorted_trips_list (foldl aggregate_trip [] raws))))
          = int (length raws)"
    using foldl_aggregate_total[of "[]" raws] by (simp add: out_total map_total_def)
  then show ?thesis using aggregated_from_raws[OF r] raw_trips_length[OF r] by simp
qed

lemma write_trips_seg_starts:
  "write_trips_seg idx ns ol vs single sts flags g = (written, Returns True) \<Longrightarrow>
   map (\<lambda>t. int_of_str (start t)) written = map (\<lambda>i. sts ! i) idx"
proof (induction idx arbitrary: g written)
  case Nil
  then show ?case by simp
next
  case (Cons i idx)
  from write_trips_seg_Cons[OF Cons.prems] obtain o1 l d g' rest where
      w: "write_trips_seg idx ns ol vs single sts flags g' = (rest, Returns True)"
      and e: "written = make_trip (int i + 1) o1 d l (sts ! i) # rest" by auto
  show ?case using Cons.IH[OF w] e by (simp add: make_trip_sel int_of_str_str_int)
qed

lemma length_filter_map: "length (filter P xs) = length (filter (\<lambda>b. b) (map P xs))"
  by (induction xs) auto

lemma segmented_unfold:
  assumes "valid_origin_nodes ns ol \<noteq> []" "all_trip_start_times slots n mx g = Inr (pool, g1)"
  shows "generate_and_write_trips_iterative_seg ns ol n mx slots pct g =
     write_trips_seg [0..<nat n] ns ol (valid_origin_nodes ns ol) (length ns = 1) pool
       (fst (trip_is_od_equal_flags n (if length ns = 1 then 1 else pct) g1))
       (snd (trip_is_od_equal_flags n (if length ns = 1 then 1 else pct) g1))"
proof -
  have "ns \<noteq> []" using assms(1) by (rule valid_origin_nodes_nonempty)
  then show ?thesis using assms
    by (simp add: generate_and_write_trips_iterative_seg_def Let_def split_beta)
qed

lemma segmented_run:
  assumes v: "valid_origin_nodes ns ol \<noteq> []" and n: "0 \<le> n"
    and p: "all_trip_start_times slots n mx g = Inr (pool, g1)"
  shows "\<exists>written. generate_and_write_trips_iterative_seg ns ol n mx slots pct g = (written, Returns True) \<and>
           length written = nat n \<and> map (\<lambda>t. int_of_str (start t)) written = pool \<and>
           (\<forall>t\<in>set written. trip_ok (valid_origin_nodes ns ol) ol t) \<and>
           (length ns = 1 \<longrightarrow> (\<forall>t\<in>set written. destination t = origin t)) \<and>
           (2 \<le> card (set ns) \<and> 0 \<le> pct \<and> pct \<le> 1 \<longrightarrow>
              length (filter (\<lambda>t. origin t = destination t) written) = nat \<lfloor>of_int n * pct\<rfloor>)"
proof -
  let ?vs = "valid_origin_nodes ns ol"
  let ?single = "length ns = 1"
  let ?pct = "if ?single then 1 else pct"
  let ?flags = "fst (trip_is_od_equal_flags n ?pct g1)"
  let ?g2 = "snd (trip_is_od_equal_flags n ?pct g1)"
  have ne: "ns \<noteq> []" using v by (rule valid_origin_nodes_nonempty)
  have valid: "\<forall>v\<in>set ?vs. is_valid_origin ol v" using valid_origin_nodes_valid by blast
  have lp: "length pool = nat n" using all_trip_start_times_length[OF p n] .
  have lf: "nat n \<le> length ?flags" by (rule flags_length)
  have idx: "\<forall>i\<in>set [0..<nat n]. i < length pool \<and> i < length ?flags" using lp lf by auto
  from write_trips_seg_ok[OF v valid ne idx, of ?single ?g2] obtain written where
    w: "write_trips_seg [0..<nat n] ns ol ?vs ?single pool ?flags ?g2 = (written, Returns True)"
    and len: "length written = length [0..<nat n]" by blast
  have gen: "generate_and_write_trips_iterative_seg ns ol n mx slots pct g = (written, Returns True)"
    using w by (simp only: segmented_unfold[OF v p])
  have "map (\<lambda>i. pool ! i) [0..<nat n] = pool" using lp map_nth[of pool] by simp
  then have st: "map (\<lambda>t. int_of_str (start t)) written = pool"
    using write_trips_seg_starts[OF w] by simp
  note rec = write_trips_seg_records[OF w]
  have ok: "\<forall>t\<in>set written. trip_ok ?vs ol t" using rec by blast
  have one: "?single \<longrightarrow> (\<forall>t\<in>set written. destination t = origin t)" using rec by blast
  have quota: "2 \<le> card (set ns) \<and> 0 \<le> pct \<and> pct \<le> 1 \<longrightarrow>
              length (filter (\<lambda>t. origin t = destination t) written) = nat \<lfloor>of_int n * pct\<rfloor>"
  proof (intro impI)
    assume a: "2 \<le> card (set ns) \<and> 0 \<le> pct \<and> pct \<le> 1"
    then have ns2: "\<not> ?single" using two_nodes_length[of ns] by simp
    then have pe: "?pct = pct" by simp
    have other: "\<forall>v\<in>set ?vs. \<exists>y\<in>set ns. y \<noteq> v" using a other_node[of ns] by blast
    have lfe: "length ?flags = nat n" using a n by (simp only: pe flags_length_eq)
    then have "map (\<lambda>i. ?flags ! i) [0..<nat n] = ?flags" using map_nth[of ?flags] by simp
    then have "map (\<lambda>t. origin t = destination t) written = ?flags"
      using write_trips_seg_flags[OF ns2 other w] by simp
    then have "length (filter (\<lambda>t. origin t = destination t) written) =
               length (filter (\<lambda>b. b) ?flags)"
      by (simp only: length_filter_map[of "\<lambda>t. origin t = destination t" written])
    also have "\<dots> = nat (target_od_equal_trips n pct)" by (simp only: pe flags_count)
    also have "\<dots> = nat \<lfloor>of_int n * pct\<rfloor>" using a n by (simp add: target_floor)
    finally show "length (filter (\<lambda>t. origin t = destination t) written) = nat \<lfloor>of_int n * pct\<rfloor>" .
  qed
  show ?thesis using gen len st ok one quota by auto
qed








section \<open>Two runs worked out\<close>

lemma snth_cycle_block:
  assumes "u \<noteq> []" "j < length u"
  shows "cycle u !! (k * length u + j) = u ! j"
proof -
  have "sdrop (k * length u) (cycle u) = cycle u" using assms(1) by simp
  then have "cycle u !! (k * length u + j) = cycle u !! j"
    using sdrop_snth[of "k * length u" "cycle u" j] by simp
  also have "\<dots> = (u @- cycle u) !! j" using cycle_decomp[OF assms(1)] by simp
  also have "\<dots> = u ! j" using assms(2) by (rule shift_snth_less)
  finally show ?thesis .
qed

lemma fair_cycle:
  assumes "u \<noteq> []" "\<forall>i<n. \<exists>j<length u. u ! j mod n = i"
  shows "fair n (cycle u)"
  unfolding fair_def
proof (intro allI impI)
  fix k i assume "i < n"
  with assms(2) obtain j where j: "j < length u" "u ! j mod n = i" by blast
  obtain l where "length u = Suc l" using assms(1) by (cases u) auto
  then have "k \<le> k * length u + j" by simp
  moreover have "cycle u !! (k * length u + j) mod n = i"
    using j by (simp add: snth_cycle_block[OF assms(1)])
  ultimately show "\<exists>m\<ge>k. cycle u !! m mod n = i" by blast
qed

lemma ex_fair: "fair (length [''a'', ''b'']) (cycle [0, 3, 4, 5, 9])"
proof (rule fair_cycle)
  show "[0, 3, 4, 5, 9] \<noteq> ([] :: nat list)" by simp
  show "\<forall>i<length [''a'', ''b'']. \<exists>j<length [0, 3, 4, 5, 9 :: nat]. [0, 3, 4, 5, 9] ! j mod length [''a'', ''b''] = i"
  proof (intro allI impI)
    fix i assume "i < length [''a'', ''b'']"
    then have "i = 0 \<or> i = 1" by auto
    then show "\<exists>j<length [0, 3, 4, 5, 9 :: nat]. [0, 3, 4, 5, 9] ! j mod length [''a'', ''b''] = i"
    proof
      assume "i = 0"
      then show ?thesis by (intro exI[of _ 0]) simp
    next
      assume "i = 1"
      then show ?thesis by (intro exI[of _ 1]) (simp add: numeral_2_eq_2[symmetric])
    qed
  qed
qed

lemma ex_cycle: "cycle [0, 3, 4, 5, 9] = 0 ## 3 ## 4 ## 5 ## 9 ## cycle [0, 3, 4, 5, 9 :: nat]"
  using cycle_decomp[of "[0, 3, 4, 5, 9 :: nat]"] by simp

lemma ex_sample_cycle:
  "sample_trip [''a'', ''b''] [(''a'', [''l1''])] [''a''] 5 (cycle [0, 3, 4, 5, 9]) =
     Some (Inr (\<lparr>s_origin = ''a'', s_link_origin = ''l1'', s_destination = ''b'', s_start_time = 3\<rparr>,
                cycle [0, 3, 4, 5, 9]))"
proof -
  have r2: "redraw_destination [''a'', ''b''] ''a'' ''b'' (9 ## cycle [0, 3, 4, 5, 9]) =
             Some (Inr (''b'', 9 ## cycle [0, 3, 4, 5, 9]))"
    by (subst redraw_destination.simps) simp
  have r1: "redraw_destination [''a'', ''b''] ''a'' ''a'' (5 ## 9 ## cycle [0, 3, 4, 5, 9]) =
             Some (Inr (''b'', 9 ## cycle [0, 3, 4, 5, 9]))"
    by (subst redraw_destination.simps) (simp add: choice_def r2 numeral_2_eq_2[symmetric])
  have "sample_trip [''a'', ''b''] [(''a'', [''l1''])] [''a''] 5 (0 ## 3 ## 4 ## 5 ## 9 ## cycle [0, 3, 4, 5, 9]) =
     Some (Inr (\<lparr>s_origin = ''a'', s_link_origin = ''l1'', s_destination = ''b'', s_start_time = 3\<rparr>,
                cycle [0, 3, 4, 5, 9]))"
    by (simp add: sample_trip_def choice_def randint_def r1 numeral_2_eq_2[symmetric])
  then show ?thesis by (simp only: ex_cycle[symmetric])
qed

lemma ex_basic_run:
  "generate_and_write_trips_iterative [''a'', ''b''] [(''a'', [''l1''])] 2 5 (cycle [0, 3, 4, 5, 9]) =
     ([\<lparr>name = ''trip_1'', origin = ''a'', destination = ''b'', link_origin = ''l1'',
        trip_count = ''1'', start = ''3'', mode = ''car'', digital_rails_capable = ''false''\<rparr>,
       \<lparr>name = ''trip_2'', origin = ''a'', destination = ''b'', link_origin = ''l1'',
        trip_count = ''1'', start = ''3'', mode = ''car'', digital_rails_capable = ''false''\<rparr>],
      Returns True)"
proof -
  have u: "[1..2] = [1, 2 :: int]" by (simp add: upto.simps)
  show ?thesis
    by (simp add: generate_and_write_trips_iterative_def ex_valid u ex_sample_cycle make_trip_def
        str_int_def str_nat.simps digit_char_def)
qed

lemma ex_agg_run:
  "generate_aggregated_and_sorted_trips [''a'', ''b''] [(''a'', [''l1''])] 2 5 (cycle [0, 3, 4, 5, 9]) =
     Returns [\<lparr>f_origin = ''a'', f_destination = ''b'', f_start = ''3'', f_count = 2,
        f_link_origin = ''l1'', f_mode = ''car'', f_digital_rails_capable = ''false'', f_name = ''trip_1''\<rparr>]"
proof -
  have l: "aggregate_loop 2 [''a'', ''b''] [(''a'', [''l1''])] [''a''] 5 [] (cycle [0, 3, 4, 5, 9]) =
     Returns [((''a'', ''b'', 3), (2, ''l1''))]"
    by (simp add: numeral_2_eq_2 ex_sample_cycle aggregate_trip_def trip_key_def)
  show ?thesis
    by (simp add: generate_aggregated_and_sorted_trips_def ex_valid l sorted_trips_list_def
        processed_trips_list_def final_trips_for_xml_def enumerate_eq_zip str_int_def
        str_nat.simps digit_char_def)
qed

lemma ex_pool:
  "all_trip_start_times
     [\<lparr>slot_name = ''s0'', start_sec = 0, end_sec = 9, percentage = 1 / 2\<rparr>,
      \<lparr>slot_name = ''s1'', start_sec = 10, end_sec = 19, percentage = 1 / 2\<rparr>] 2 15 (3 ## 8 ## g) =
   Inr ([3, 12], g)"
  by (simp add: all_trip_start_times_def py_round_def randint_def fill_remainder_done py_slice_to_def)

lemma ex_flags: "trip_is_od_equal_flags 2 (1 / 2) (0 ## g) = ([False, True], g)"
  by (simp add: trip_is_od_equal_flags_def target_od_equal_trips_def py_int_def shuffle_def)


lemma ex_trip_free:
  "sample_trip_seg [''a'', ''b''] [(''a'', [''l1''])] [''a''] False False (0 ## 0 ## 0 ## 3 ## g) =
     Inr ((''a'', ''l1'', ''b''), g)"
proof -
  have r2: "retry_destination [''a'', ''b''] ''a'' ''b'' (Suc 0) 7 g = Inr (''b'', g)"
    by (rule retry_destination_stop) simp
  have r1: "retry_destination [''a'', ''b''] ''a'' ''a'' 0 7 (3 ## g) = Inr (''b'', g)"
    by (simp add: retry_destination_again r2 numeral_2_eq_2[symmetric])
  show ?thesis
    by (simp add: sample_trip_seg_def choice_def choose_destination_def r1)
qed

lemma ex_trip_forced:
  "sample_trip_seg ns [(''a'', [''l1''])] [''a''] True single (0 ## 0 ## g) =
     Inr ((''a'', ''l1'', ''a''), g)"
  by (simp add: sample_trip_seg_def choice_def choose_destination_def)


lemma ex_seg_run:
  "generate_and_write_trips_iterative_seg [''a'', ''b''] [(''a'', [''l1''])] 2 15
     [\<lparr>slot_name = ''s0'', start_sec = 0, end_sec = 9, percentage = 1 / 2\<rparr>,
      \<lparr>slot_name = ''s1'', start_sec = 10, end_sec = 19, percentage = 1 / 2\<rparr>] (1 / 2)
     (3 ## 8 ## 0 ## 0 ## 0 ## 0 ## 3 ## 0 ## 0 ## sconst 0) =
     ([\<lparr>name = ''trip_1'', origin = ''a'', destination = ''b'', link_origin = ''l1'',
        trip_count = ''1'', start = ''3'', mode = ''car'', digital_rails_capable = ''false''\<rparr>,
       \<lparr>name = ''trip_2'', origin = ''a'', destination = ''a'', link_origin = ''l1'',
        trip_count = ''1'', start = ''12'', mode = ''car'', digital_rails_capable = ''false''\<rparr>],
      Returns True)"
proof -
  have u: "[0..<2] = [0, Suc 0]" by (simp add: upt_rec numeral_2_eq_2)
  show ?thesis
    by (simp add: generate_and_write_trips_iterative_seg_def ex_valid ex_pool ex_flags u
        ex_trip_free ex_trip_forced make_trip_def str_int_def str_nat.simps digit_char_def)
qed


lemma ex_usable:
  "is_usable 15 \<lparr>slot_name = ''s0'', start_sec = 0, end_sec = 9, percentage = 1 / 2\<rparr> \<and>
   is_usable 15 \<lparr>slot_name = ''s1'', start_sec = 10, end_sec = 19, percentage = 1 / 2\<rparr>"
  by (simp add: is_usable_def)





section \<open>The records the generators write\<close>

text \<open>
  Claim C10. In the basic and in the aggregating script, with a node list of at least two
  entries, no record has its destination equal to its origin: this holds of every record the
  basic script writes, also in a run that fails or hangs later, and of every record the
  aggregating script returns. Records are produced: with a valid origin, two different node
  identifiers, a maximum time that is not negative and a fair random source, the basic script
  returns \<^verbatim>\<open>True\<close> after writing \<open>n\<close> records and the aggregating script returns records
  whose counts add up to \<open>n\<close>.
\<close>

theorem destination_differs_from_origin:
  assumes "1 < length ns"
  shows "(\<forall>t\<in>set (fst (generate_and_write_trips_iterative ns ol n mx g)). destination t \<noteq> origin t) \<and>
     (\<forall>out. generate_aggregated_and_sorted_trips ns ol n mx g = Returns out \<longrightarrow>
        (\<forall>t\<in>set out. f_destination t \<noteq> f_origin t)) \<and>
     (valid_origin_nodes ns ol \<noteq> [] \<and> 2 \<le> card (set ns) \<and> 0 \<le> mx \<and> fair (length ns) g \<longrightarrow>
        (\<exists>written. generate_and_write_trips_iterative ns ol n mx g = (written, Returns True) \<and>
           length written = nat n) \<and>
        (\<exists>out. generate_aggregated_and_sorted_trips ns ol n mx g = Returns out \<and>
           sum_list (map f_count out) = int (nat n)))"
proof (intro conjI)
  show "\<forall>t\<in>set (fst (generate_and_write_trips_iterative ns ol n mx g)). destination t \<noteq> origin t"
  proof
    fix t assume t: "t \<in> set (fst (generate_and_write_trips_iterative ns ol n mx g))"
    obtain written r where w: "generate_and_write_trips_iterative ns ol n mx g = (written, r)"
      by (cases "generate_and_write_trips_iterative ns ol n mx g")
    from basic_records[OF w, of t] t w assms show "destination t \<noteq> origin t" by simp
  qed
next
  show "\<forall>out. generate_aggregated_and_sorted_trips ns ol n mx g = Returns out \<longrightarrow>
        (\<forall>t\<in>set out. f_destination t \<noteq> f_origin t)"
  proof (intro allI impI ballI)
    fix out t assume o: "generate_aggregated_and_sorted_trips ns ol n mx g = Returns out"
      and t: "t \<in> set out"
    from aggregated_keys_from_raws[OF o t] obtain raws s where
      r: "raw_trips (nat n) ns ol (valid_origin_nodes ns ol) mx g = Returns raws"
      and s: "s \<in> set raws" and k: "final_key t = rendered_key s" by blast
    from raw_trips_props[OF r] s assms have "s_destination s \<noteq> s_origin s" by blast
    then show "f_destination t \<noteq> f_origin t" using k by (simp add: final_key_def rendered_key_def)
  qed
next
  show "valid_origin_nodes ns ol \<noteq> [] \<and> 2 \<le> card (set ns) \<and> 0 \<le> mx \<and> fair (length ns) g \<longrightarrow>
        (\<exists>written. generate_and_write_trips_iterative ns ol n mx g = (written, Returns True) \<and>
           length written = nat n) \<and>
        (\<exists>out. generate_aggregated_and_sorted_trips ns ol n mx g = Returns out \<and>
           sum_list (map f_count out) = int (nat n))"
    using basic_run[of ns ol mx g n] aggregated_run[of ns ol mx g n] by blast
qed

theorem destination_differs_from_origin_witness:
  "generate_and_write_trips_iterative [''a'', ''b''] [(''a'', [''l1''])] 2 5 (cycle [0, 3, 4, 5, 9]) =
     ([\<lparr>name = ''trip_1'', origin = ''a'', destination = ''b'', link_origin = ''l1'',
        trip_count = ''1'', start = ''3'', mode = ''car'', digital_rails_capable = ''false''\<rparr>,
       \<lparr>name = ''trip_2'', origin = ''a'', destination = ''b'', link_origin = ''l1'',
        trip_count = ''1'', start = ''3'', mode = ''car'', digital_rails_capable = ''false''\<rparr>],
      Returns True) \<and>
   generate_aggregated_and_sorted_trips [''a'', ''b''] [(''a'', [''l1''])] 2 5 (cycle [0, 3, 4, 5, 9]) =
     Returns [\<lparr>f_origin = ''a'', f_destination = ''b'', f_start = ''3'', f_count = 2,
        f_link_origin = ''l1'', f_mode = ''car'', f_digital_rails_capable = ''false'', f_name = ''trip_1''\<rparr>] \<and>
   ''b'' \<noteq> ''a'' \<and> 1 < length [''a'', ''b''] \<and> 2 \<le> card (set [''a'', ''b'']) \<and>
   valid_origin_nodes [''a'', ''b''] [(''a'', [''l1''])] \<noteq> [] \<and>
   fair (length [''a'', ''b'']) (cycle [0, 3, 4, 5, 9])"
proof -
  have l: "1 < length [''a'', ''b'']" by simp
  have c: "2 \<le> card (set [''a'', ''b''])" by simp
  have v: "valid_origin_nodes [''a'', ''b''] [(''a'', [''l1''])] \<noteq> []" by (simp add: ex_valid)
  note t = destination_differs_from_origin [OF l, of "[(''a'', [''l1''])]" 2 5 "cycle [0, 3, 4, 5, 9]"]
  from t have "\<forall>t\<in>set (fst (generate_and_write_trips_iterative [''a'', ''b''] [(''a'', [''l1''])] 2 5
      (cycle [0, 3, 4, 5, 9]))). destination t \<noteq> origin t" by (rule conjunct1)
  then have d: "''b'' \<noteq> ''a''" by (simp add: ex_basic_run)
  show ?thesis by (intro conjI) (rule ex_basic_run ex_agg_run d l c v ex_fair)+
qed

text \<open>
  Claim C1. Take a node list with at least two different identifiers, one of them a valid
  origin, a number of trips \<open>n\<close> and a maximum time that are not negative. The basic script,
  on a fair random source, returns \<^verbatim>\<open>True\<close> after writing exactly \<open>n\<close> records; so does the
  segmented script, on every random source, when each of its slots starts no later than its
  clipped end. Every record has a valid origin as its origin and one of the links that leave
  this origin as its \<^verbatim>\<open>link_origin\<close>.
\<close>

theorem unaggregated_trip_count:
  assumes "valid_origin_nodes ns ol \<noteq> []" "2 \<le> card (set ns)" "0 \<le> n" "0 \<le> mx"
  shows "(fair (length ns) g \<longrightarrow>
           (\<exists>written. generate_and_write_trips_iterative ns ol n mx g = (written, Returns True) \<and>
              int (length written) = n \<and>
              (\<forall>t\<in>set written. trip_ok (valid_origin_nodes ns ol) ol t))) \<and>
         ((\<forall>s\<in>set slots. is_usable mx s) \<longrightarrow>
           (\<exists>written. generate_and_write_trips_iterative_seg ns ol n mx slots pct g =
                (written, Returns True) \<and>
              int (length written) = n \<and>
              (\<forall>t\<in>set written. trip_ok (valid_origin_nodes ns ol) ol t)))"
proof (intro conjI impI)
  assume f: "fair (length ns) g"
  from basic_run[OF assms(1,2,4) f, of n] obtain written where
    w: "generate_and_write_trips_iterative ns ol n mx g = (written, Returns True)"
    and l: "length written = nat n" by blast
  have "\<forall>t\<in>set written. trip_ok (valid_origin_nodes ns ol) ol t"
    using basic_records[OF w] by blast
  then show "\<exists>written. generate_and_write_trips_iterative ns ol n mx g = (written, Returns True) \<and>
              int (length written) = n \<and>
              (\<forall>t\<in>set written. trip_ok (valid_origin_nodes ns ol) ol t)"
    using w l assms(3) by auto
next
  assume u: "\<forall>s\<in>set slots. is_usable mx s"
  from all_trip_start_times_ok[OF u assms(4), of n g] obtain pool g1 where
    p: "all_trip_start_times slots n mx g = Inr (pool, g1)" by blast
  from segmented_run[OF assms(1,3) p, of pct] obtain written where
    "generate_and_write_trips_iterative_seg ns ol n mx slots pct g = (written, Returns True)"
    "length written = nat n" "\<forall>t\<in>set written. trip_ok (valid_origin_nodes ns ol) ol t"
    by blast
  then show "\<exists>written. generate_and_write_trips_iterative_seg ns ol n mx slots pct g =
                (written, Returns True) \<and>
              int (length written) = n \<and>
              (\<forall>t\<in>set written. trip_ok (valid_origin_nodes ns ol) ol t)"
    using assms(3) by auto
qed

theorem unaggregated_trip_count_witness:
  "generate_and_write_trips_iterative [''a'', ''b''] [(''a'', [''l1''])] 2 5 (cycle [0, 3, 4, 5, 9]) =
     ([\<lparr>name = ''trip_1'', origin = ''a'', destination = ''b'', link_origin = ''l1'',
        trip_count = ''1'', start = ''3'', mode = ''car'', digital_rails_capable = ''false''\<rparr>,
       \<lparr>name = ''trip_2'', origin = ''a'', destination = ''b'', link_origin = ''l1'',
        trip_count = ''1'', start = ''3'', mode = ''car'', digital_rails_capable = ''false''\<rparr>],
      Returns True) \<and>
   generate_and_write_trips_iterative_seg [''a'', ''b''] [(''a'', [''l1''])] 2 15
     [\<lparr>slot_name = ''s0'', start_sec = 0, end_sec = 9, percentage = 1 / 2\<rparr>,
      \<lparr>slot_name = ''s1'', start_sec = 10, end_sec = 19, percentage = 1 / 2\<rparr>] (1 / 2)
     (3 ## 8 ## 0 ## 0 ## 0 ## 0 ## 3 ## 0 ## 0 ## sconst 0) =
     ([\<lparr>name = ''trip_1'', origin = ''a'', destination = ''b'', link_origin = ''l1'',
        trip_count = ''1'', start = ''3'', mode = ''car'', digital_rails_capable = ''false''\<rparr>,
       \<lparr>name = ''trip_2'', origin = ''a'', destination = ''a'', link_origin = ''l1'',
        trip_count = ''1'', start = ''12'', mode = ''car'', digital_rails_capable = ''false''\<rparr>],
      Returns True) \<and>
   valid_origin_nodes [''a'', ''b''] [(''a'', [''l1''])] = [''a''] \<and>
   link_of_origin [(''a'', [''l1''])] ''a'' ''l1'' \<and>
   2 \<le> card (set [''a'', ''b'']) \<and>
   fair (length [''a'', ''b'']) (cycle [0, 3, 4, 5, 9]) \<and>
   is_usable 15 \<lparr>slot_name = ''s0'', start_sec = 0, end_sec = 9, percentage = 1 / 2\<rparr> \<and>
   is_usable 15 \<lparr>slot_name = ''s1'', start_sec = 10, end_sec = 19, percentage = 1 / 2\<rparr>"
proof -
  have c: "2 \<le> card (set [''a'', ''b''])" by simp
  have v: "valid_origin_nodes [''a'', ''b''] [(''a'', [''l1''])] \<noteq> []" by (simp add: ex_valid)
  have n: "(0::int) \<le> 2" by simp
  have m: "(0::int) \<le> 5" by simp
  note t = unaggregated_trip_count [OF v c n m, of "cycle [0, 3, 4, 5, 9]"]
  from t ex_fair obtain written where
    "generate_and_write_trips_iterative [''a'', ''b''] [(''a'', [''l1''])] 2 5 (cycle [0, 3, 4, 5, 9]) =
       (written, Returns True)"
    "\<forall>t\<in>set written. trip_ok (valid_origin_nodes [''a'', ''b''] [(''a'', [''l1''])]) [(''a'', [''l1''])] t"
    by blast
  then have l: "link_of_origin [(''a'', [''l1''])] ''a'' ''l1''"
    by (auto simp: ex_basic_run trip_ok_def)
  show ?thesis
    by (intro conjI) (rule ex_basic_run ex_seg_run ex_valid l c ex_fair conjunct1[OF ex_usable]
        conjunct2[OF ex_usable])+
qed






end
